theory Spec2Isabelle
  imports Complex_Main
begin

section \<open>The model\<close>

subsection \<open>Orbit trail (src/js/app.js, addTrailPoint)\<close>

text \<open>
  JavaScript numbers are modelled as reals: latitudes, longitudes, elevations and azimuths
  are \<^typ>\<open>real\<close>, so rounding and NaN are outside the model. Millisecond timestamps are
  integers (\<^typ>\<open>int\<close>).

  A trail point is the two-element array \<^verbatim>\<open>[lat, lng]\<close>; index 1 is the longitude.
\<close>

type_synonym point = "real \<times> real"

definition TRAIL_MAX :: nat where
  "TRAIL_MAX = 60"

text \<open>
  The part of the module state that \<^verbatim>\<open>addTrailPoint\<close> reads and writes:
  \<^verbatim>\<open>state.globe\<close> (null until the globe has been created, so only its truthiness matters),
  \<^verbatim>\<open>state.trailPoints\<close>, and the list of \<^verbatim>\<open>coords\<close> arrays last handed to
  \<^verbatim>\<open>state.globe.pathsData\<close>.
\<close>

record app_state =
  globe :: bool
  trailPoints :: "point list"
  pathsData :: "point list list"

text \<open>
  The loop \<^verbatim>\<open>for (let i = 1; i < state.trailPoints.length; i++)\<close> with its two
  accumulators \<^verbatim>\<open>segments\<close> and \<^verbatim>\<open>currentSeg\<close>. On a longitude jump of more
  than 180 degrees the current segment is pushed and a fresh empty one is started; the point
  at index \<^verbatim>\<open>i\<close> is then pushed onto the current segment in either case.
\<close>

function segment_loop ::
  "point list \<Rightarrow> nat \<Rightarrow> point list list \<Rightarrow> point list \<Rightarrow> point list list \<times> point list" where
  "segment_loop tp i segments currentSeg =
     (if i < length tp then
        (let prevLng = snd (tp ! (i - 1));
             currLng = snd (tp ! i)
         in if \<bar>currLng - prevLng\<bar> > 180
            then segment_loop tp (i + 1) (segments @ [currentSeg]) ([] @ [tp ! i])
            else segment_loop tp (i + 1) segments (currentSeg @ [tp ! i]))
      else (segments, currentSeg))"
  by pat_completeness auto
termination
  by (relation "measure (\<lambda>(tp, i, segments, currentSeg). length tp - i)") auto

declare segment_loop.simps [simp del]

text \<open>
  The body of the \<^verbatim>\<open>if (state.globe && state.trailPoints.length >= 2)\<close> block:
  \<^verbatim>\<open>currentSeg\<close> starts as \<^verbatim>\<open>[state.trailPoints[0]]\<close>, and after the loop the
  current segment is pushed as the last one. It is only ever called on a buffer of at least
  two points, so index 0 exists.
\<close>

definition segment :: "point list \<Rightarrow> point list list" where
  "segment tp =
     (case segment_loop tp 1 [] [tp ! 0] of
        (segments, currentSeg) \<Rightarrow> segments @ [currentSeg])"

definition addTrailPoint :: "real \<Rightarrow> real \<Rightarrow> app_state \<Rightarrow> app_state" where
  "addTrailPoint lat lng st =
     (let pushed = trailPoints st @ [(lat, lng)];
          kept = (if length pushed > TRAIL_MAX then tl pushed else pushed);
          st' = st\<lparr>trailPoints := kept\<rparr>
      in if globe st \<and> length kept \<ge> 2
         then st'\<lparr>pathsData := segment kept\<rparr>
         else st')"

text \<open>A run of \<^verbatim>\<open>addTrailPoint\<close> calls, one per position fix, in call order.\<close>

fun addTrailPoints :: "app_state \<Rightarrow> point list \<Rightarrow> app_state" where
  "addTrailPoints st [] = st"
| "addTrailPoints st (p # ps) = addTrailPoints (addTrailPoint (fst p) (snd p) st) ps"

subsection \<open>Orbit trail: predicates and sample trails\<close>

text \<open>No jump of more than 180 degrees between neighbours of one segment.\<close>

definition no_jump :: "point list \<Rightarrow> bool" where
  "no_jump seg = (\<forall>j. Suc j < length seg \<longrightarrow> \<bar>snd (seg ! Suc j) - snd (seg ! j)\<bar> \<le> 180)"

text \<open>
  The invariant of the segmentation loop at index \<open>i\<close>: the segments pushed so far and the
  current one concatenate to the first \<open>i\<close> points, none is empty, none holds a jump, and
  a jump just before index \<open>i\<close> has left the current segment with one point.
\<close>

definition seg_inv :: "point list \<Rightarrow> nat \<Rightarrow> point list list \<Rightarrow> point list \<Rightarrow> bool" where
  "seg_inv tp i segs cur \<longleftrightarrow>
     1 \<le> i \<and> concat segs @ cur = take i tp \<and> cur \<noteq> [] \<and> [] \<notin> set segs \<and>
     last cur = tp ! (i - 1) \<and> (\<forall>s \<in> set segs. no_jump s) \<and> no_jump cur \<and>
     (2 \<le> i \<and> \<bar>snd (tp ! (i - 1)) - snd (tp ! (i - 2))\<bar> > 180 \<longrightarrow> cur = [tp ! (i - 1)])"

text \<open>Sample trails: two with an antimeridian crossing, one of 61 fixes.\<close>

definition crossing_trail :: "point list" where
  "crossing_trail = [(10, 170), (10, 175), (10, -179), (10, -175)]"

definition edge_trail :: "point list" where
  "edge_trail = [(10, 170), (10, 175), (10, -179)]"

definition fixes61 :: "point list" where
  "fixes61 = map (\<lambda>k. (0, real k)) [0..<61]"

subsection \<open>Pass prediction (src/js/predictions.js, computePasses)\<close>

definition MIN_ELEVATION_DEG :: real where
  "MIN_ELEVATION_DEG = 10"

definition stepMs :: int where
  "stepMs = 10000"

text \<open>
  A pass object. A \<^verbatim>\<open>Date\<close> is represented by its time value in milliseconds. The
  property \<^verbatim>\<open>end\<close> is called \<open>endT\<close> here, \<^verbatim>\<open>end\<close> being a reserved word.
\<close>

record pass =
  start :: int
  startAz :: real
  maxEl :: real
  maxElTime :: int
  endT :: int
  endAz :: real

text \<open>
  The local variables of the sampling loop: \<^verbatim>\<open>inPass\<close>, \<^verbatim>\<open>currentPass\<close>
  (\<open>None\<close> is null), the local \<^verbatim>\<open>maxEl\<close> (called \<open>maxElVar\<close>, to tell it from the
  property of the pass) and \<^verbatim>\<open>passes\<close>.
\<close>

record loop_vars =
  inPass :: bool
  currentPass :: "pass option"
  maxElVar :: real
  passes :: "pass list"

datatype js_error = TypeError | EmptyPass

text \<open>What one run of the loop body does: it throws, it breaks with the list of passes, or it goes on.\<close>

datatype step_result = Throw js_error | Break "pass list" | Continue loop_vars

text \<open>
  One run of the loop body at sample time \<open>t\<close>. The calls into the satellite library
  (\<^verbatim>\<open>propagate\<close>, \<^verbatim>\<open>gstime\<close>, \<^verbatim>\<open>eciToEcf\<close>, \<^verbatim>\<open>ecfToLookAngles\<close>,
  \<^verbatim>\<open>radiansToDegrees\<close>) are a black box whose outcome is the argument \<open>sample\<close>:
  \<open>None\<close> when \<^verbatim>\<open>posVel.position\<close> is falsy, else \<open>Some (elDeg, azDeg)\<close>.

  Writing a property of \<^verbatim>\<open>currentPass\<close> while it is null throws a TypeError. Spreading
  a null \<^verbatim>\<open>currentPass\<close> would push an object with no properties, which is no pass;
  the model reports that as \<open>EmptyPass\<close>. Lemma \<open>pass_step_no_throw\<close> shows that
  neither happens.
\<close>

definition pass_step :: "(real \<times> real) option \<Rightarrow> int \<Rightarrow> loop_vars \<Rightarrow> step_result" where
  "pass_step sample t v =
     (case sample of
        None \<Rightarrow> Continue v
      | Some (elDeg, azDeg) \<Rightarrow>
          if elDeg \<ge> MIN_ELEVATION_DEG then
            (let v1 = (if \<not> inPass v
                       then v\<lparr>inPass := True, maxElVar := elDeg,
                               currentPass := Some \<lparr>start = t, startAz = azDeg, maxEl = elDeg,
                                                    maxElTime = t, endT = t, endAz = azDeg\<rparr>\<rparr>
                       else v)
             in case currentPass v1 of
                  None \<Rightarrow> Throw TypeError
                | Some cp \<Rightarrow>
                    let cp2 = (if elDeg > maxElVar v1 then cp\<lparr>maxEl := elDeg, maxElTime := t\<rparr> else cp);
                        m2 = (if elDeg > maxElVar v1 then elDeg else maxElVar v1)
                    in Continue (v1\<lparr>maxElVar := m2,
                                     currentPass := Some (cp2\<lparr>endT := t, endAz := azDeg\<rparr>)\<rparr>))
          else if inPass v then
            (case currentPass v of
               None \<Rightarrow> Throw EmptyPass
             | Some cp \<Rightarrow>
                 let v1 = v\<lparr>inPass := False, passes := passes v @ [cp],
                             currentPass := None, maxElVar := 0\<rparr>
                 in if length (passes v1) \<ge> 5 then Break (passes v1) else Continue v1)
          else Continue v)"

text \<open>
  \<^verbatim>\<open>for (let t = now.getTime(); t < end.getTime(); t += stepMs)\<close>; \<open>look\<close> maps a sample
  time to the outcome of the library calls there. \<^verbatim>\<open>return passes\<close> follows the loop.
\<close>

function passes_loop ::
  "(int \<Rightarrow> (real \<times> real) option) \<Rightarrow> int \<Rightarrow> int \<Rightarrow> loop_vars \<Rightarrow> js_error + pass list" where
  "passes_loop look endMs t v =
     (if t < endMs then
        (case pass_step (look t) t v of
           Throw e \<Rightarrow> Inl e
         | Break ps \<Rightarrow> Inr ps
         | Continue v' \<Rightarrow> passes_loop look endMs (t + stepMs) v')
      else Inr (passes v))"
  by pat_completeness auto
termination
  by (relation "measure (\<lambda>(look, endMs, t, v). nat (endMs - t))") (auto simp: stepMs_def)

declare passes_loop.simps [simp del]

text \<open>
  \<^verbatim>\<open>computePasses(observerLat, observerLng, observerAlt)\<close>. The module variable
  \<^verbatim>\<open>tleData\<close> (null until a TLE has been fetched) and the clock reading \<^verbatim>\<open>new Date()\<close>
  are arguments; \<open>lookAngles satrec observer t\<close> stands for the library calls on the
  element set, the observer and the sample time.
\<close>

definition computePasses ::
  "'sat option \<Rightarrow> ('sat \<Rightarrow> real \<times> real \<times> real \<Rightarrow> int \<Rightarrow> (real \<times> real) option) \<Rightarrow> int \<Rightarrow>
   real \<Rightarrow> real \<Rightarrow> real \<Rightarrow> js_error + pass list" where
  "computePasses tleData lookAngles now observerLat observerLng observerAlt =
     (case tleData of
        None \<Rightarrow> Inr []
      | Some satrec \<Rightarrow>
          passes_loop (lookAngles satrec (observerLat, observerLng, observerAlt))
            (now + 48 * 60 * 60 * 1000) now
            \<lparr>inPass = False, currentPass = None, maxElVar = 0, passes = []\<rparr>)"

subsection \<open>Pass prediction: predicates, invariants and sample profiles\<close>

text \<open>
  \<open>on_grid now t\<close>: \<open>t\<close> is a sample time of a run started at \<open>now\<close>. \<open>wf_pass\<close>: the
  times of a pass are in order and its greatest elevation reaches the threshold.
  \<open>dropped_at look u\<close>: the sample at \<open>u\<close> exists and is below the threshold.
  \<open>closed_pass\<close>: a well-formed pass on the grid that a later sample of the window, below
  the threshold, has closed. \<open>pass_inv\<close> is the invariant of the sampling loop before the
  sample at \<open>t\<close>, and \<open>passes_ok\<close> what it gives for the list returned.
\<close>

definition on_grid :: "int \<Rightarrow> int \<Rightarrow> bool" where
  "on_grid now t \<longleftrightarrow> now \<le> t \<and> (t - now) mod stepMs = 0"

definition wf_pass :: "pass \<Rightarrow> bool" where
  "wf_pass p \<longleftrightarrow> start p \<le> maxElTime p \<and> maxElTime p \<le> endT p \<and> maxEl p \<ge> MIN_ELEVATION_DEG"

definition dropped_at :: "(int \<Rightarrow> (real \<times> real) option) \<Rightarrow> int \<Rightarrow> bool" where
  "dropped_at look u \<longleftrightarrow> (case look u of None \<Rightarrow> False | Some (elDeg, azDeg) \<Rightarrow> elDeg < MIN_ELEVATION_DEG)"

definition closed_pass :: "(int \<Rightarrow> (real \<times> real) option) \<Rightarrow> int \<Rightarrow> int \<Rightarrow> pass \<Rightarrow> bool" where
  "closed_pass look now endMs p \<longleftrightarrow>
     wf_pass p \<and> on_grid now (start p) \<and> on_grid now (endT p) \<and>
     (\<exists>u. endT p < u \<and> u < endMs \<and> on_grid now u \<and> dropped_at look u)"

definition pass_inv :: "(int \<Rightarrow> (real \<times> real) option) \<Rightarrow> int \<Rightarrow> int \<Rightarrow> int \<Rightarrow> loop_vars \<Rightarrow> bool" where
  "pass_inv look now endMs t v \<longleftrightarrow>
     on_grid now t \<and>
     (inPass v \<longleftrightarrow> currentPass v \<noteq> None) \<and>
     length (passes v) < 5 \<and>
     (\<forall>p \<in> set (passes v). closed_pass look now endMs p \<and> endT p < t) \<and>
     sorted_wrt (\<lambda>p q. endT p < start q) (passes v) \<and>
     (\<forall>cp. currentPass v = Some cp \<longrightarrow>
        wf_pass cp \<and> on_grid now (start cp) \<and> on_grid now (endT cp) \<and> endT cp < t \<and>
        maxElVar v = maxEl cp \<and> (\<forall>p \<in> set (passes v). endT p < start cp))"

definition passes_ok :: "(int \<Rightarrow> (real \<times> real) option) \<Rightarrow> int \<Rightarrow> int \<Rightarrow> pass list \<Rightarrow> bool" where
  "passes_ok look now endMs ps \<longleftrightarrow>
     length ps \<le> 5 \<and> (\<forall>p \<in> set ps. closed_pass look now endMs p) \<and>
     sorted_wrt (\<lambda>p q. endT p < start q) ps"

text \<open>The time of sample number \<open>k\<close>, and the loop variables before the first sample.\<close>

definition sampleTime :: "int \<Rightarrow> nat \<Rightarrow> int" where
  "sampleTime now k = now + int k * stepMs"

definition initial_vars :: loop_vars where
  "initial_vars = \<lparr>inPass = False, currentPass = None, maxElVar = 0, passes = []\<rparr>"

text \<open>\<open>j\<close> is the first sample index in \<open>a..hi\<close> at which the elevation is greatest.\<close>

definition peak_at :: "(int \<Rightarrow> real) \<Rightarrow> int \<Rightarrow> nat \<Rightarrow> nat \<Rightarrow> nat \<Rightarrow> bool" where
  "peak_at el now a hi j \<longleftrightarrow>
     a \<le> j \<and> j \<le> hi \<and>
     (\<forall>i. a \<le> i \<and> i \<le> hi \<longrightarrow> el (sampleTime now i) \<le> el (sampleTime now j)) \<and>
     (\<forall>i. a \<le> i \<and> i < j \<longrightarrow> el (sampleTime now i) < el (sampleTime now j))"

text \<open>
  The pass that the loop builds over the samples \<open>a\<close> to \<open>hi\<close> of a profile with elevation
  \<open>el\<close> and azimuth \<open>az\<close>, its greatest elevation being at sample \<open>j\<close>; and the invariant
  of the loop for a profile that is at or above the threshold exactly at the samples \<open>a\<close>
  to \<open>b\<close>, before sample \<open>k\<close>.
\<close>

definition pass_over :: "(int \<Rightarrow> real) \<Rightarrow> (int \<Rightarrow> real) \<Rightarrow> int \<Rightarrow> nat \<Rightarrow> nat \<Rightarrow> nat \<Rightarrow> pass" where
  "pass_over el az now a hi j =
     \<lparr>start = sampleTime now a, startAz = az (sampleTime now a),
      maxEl = el (sampleTime now j), maxElTime = sampleTime now j,
      endT = sampleTime now hi, endAz = az (sampleTime now hi)\<rparr>"

definition one_inv ::
  "(int \<Rightarrow> real) \<Rightarrow> (int \<Rightarrow> real) \<Rightarrow> int \<Rightarrow> nat \<Rightarrow> nat \<Rightarrow> nat \<Rightarrow> loop_vars \<Rightarrow> bool" where
  "one_inv el az now a b k v \<longleftrightarrow>
     (k \<le> a \<longrightarrow> v = initial_vars) \<and>
     (a < k \<and> k \<le> b + 1 \<longrightarrow>
        (\<exists>j. peak_at el now a (k - 1) j \<and>
           v = \<lparr>inPass = True, currentPass = Some (pass_over el az now a (k - 1) j),
                maxElVar = el (sampleTime now j), passes = []\<rparr>)) \<and>
     (b + 1 < k \<longrightarrow>
        (\<exists>j. peak_at el now a b j \<and>
           v = \<lparr>inPass = False, currentPass = None, maxElVar = 0,
                passes = [pass_over el az now a b j]\<rparr>))"

text \<open>
  Sample profiles: 45 degrees during 300 seconds that reach the last sample of the window;
  45 degrees during 300 seconds early in the window; and a profile that alternates between
  45 and 0 degrees from sample to sample during the first 100 seconds and stays at 45 after.
\<close>

definition late_profile :: "unit \<Rightarrow> real \<times> real \<times> real \<Rightarrow> int \<Rightarrow> (real \<times> real) option" where
  "late_profile satrec observer t = Some (if 172495000 \<le> t \<and> t \<le> 172795000 then 45 else 0, 0)"

definition mid_profile :: "unit \<Rightarrow> real \<times> real \<times> real \<Rightarrow> int \<Rightarrow> (real \<times> real) option" where
  "mid_profile satrec observer t = Some (if 1000000 \<le> t \<and> t \<le> 1300000 then 45 else 0, 0)"

definition blink_profile :: "unit \<Rightarrow> real \<times> real \<times> real \<Rightarrow> int \<Rightarrow> (real \<times> real) option" where
  "blink_profile satrec observer t =
     (if (t div 10000) mod 2 = 0 \<or> 100000 \<le> t then Some (45, 90) else Some (0, 90))"

definition blink_pass :: "int \<Rightarrow> pass" where
  "blink_pass t = \<lparr>start = t, startAz = 90, maxEl = 45, maxElTime = t, endT = t, endAz = 90\<rparr>"

subsection \<open>Meteor shower calendar (src/js/predictions.js, getActiveAndUpcomingShowers)\<close>

text \<open>
  A row of \<^verbatim>\<open>METEOR_SHOWERS\<close>. The properties \<^verbatim>\<open>start\<close> and \<^verbatim>\<open>end\<close> are called
  \<open>startMD\<close> and \<open>endMD\<close> here (\<^verbatim>\<open>end\<close> is a reserved word, and \<open>start\<close> is the
  property of a pass above); they hold \<^verbatim>\<open>'MM-DD'\<close> strings, as \<^verbatim>\<open>peak\<close> does.
\<close>

record shower =
  name :: string
  peak :: string
  startMD :: string
  endMD :: string
  rate :: nat
  parent :: string

definition METEOR_SHOWERS :: "shower list" where
  "METEOR_SHOWERS =
    [\<lparr>name = ''Quadrantids'', peak = ''01-03'', startMD = ''12-28'', endMD = ''01-12'', rate = 120, parent = ''2003 EH1''\<rparr>,
     \<lparr>name = ''Lyrids'', peak = ''04-22'', startMD = ''04-16'', endMD = ''04-25'', rate = 18, parent = ''C/1861 G1 (Thatcher)''\<rparr>,
     \<lparr>name = ''Eta Aquariids'', peak = ''05-06'', startMD = ''04-19'', endMD = ''05-28'', rate = 50, parent = ''1P/Halley''\<rparr>,
     \<lparr>name = ''Delta Aquariids'', peak = ''07-30'', startMD = ''07-12'', endMD = ''08-23'', rate = 25, parent = ''96P/Machholz''\<rparr>,
     \<lparr>name = ''Perseids'', peak = ''08-12'', startMD = ''07-17'', endMD = ''08-24'', rate = 100, parent = ''109P/Swift-Tuttle''\<rparr>,
     \<lparr>name = ''Draconids'', peak = ''10-08'', startMD = ''10-06'', endMD = ''10-10'', rate = 10, parent = ''21P/Giacobini-Zinner''\<rparr>,
     \<lparr>name = ''Orionids'', peak = ''10-21'', startMD = ''10-02'', endMD = ''11-07'', rate = 20, parent = ''1P/Halley''\<rparr>,
     \<lparr>name = ''Leonids'', peak = ''11-17'', startMD = ''11-06'', endMD = ''11-30'', rate = 15, parent = ''55P/Tempel-Tuttle''\<rparr>,
     \<lparr>name = ''Geminids'', peak = ''12-14'', startMD = ''12-04'', endMD = ''12-17'', rate = 150, parent = ''3200 Phaethon''\<rparr>,
     \<lparr>name = ''Ursids'', peak = ''12-22'', startMD = ''12-17'', endMD = ''12-26'', rate = 10, parent = ''8P/Tuttle''\<rparr>]"

text \<open>
  Dates. A \<^verbatim>\<open>Date\<close> is its time value in milliseconds, \<open>None\<close> being the invalid date
  (time value NaN). Time values are read on the local time line, with a constant offset
  from UTC: that offset cancels in every comparison and difference the calendar makes, so
  it is left out. The day arithmetic is that of the language standard
  (\<^verbatim>\<open>DayFromYear\<close>, \<^verbatim>\<open>MakeDay\<close>, \<^verbatim>\<open>MakeDate\<close>, \<^verbatim>\<open>TimeClip\<close>).
\<close>

definition msPerDay :: int where
  "msPerDay = 86400000"

definition DayFromYear :: "int \<Rightarrow> int" where
  "DayFromYear y = 365 * (y - 1970) + (y - 1969) div 4 - (y - 1901) div 100 + (y - 1601) div 400"

definition InLeapYear :: "int \<Rightarrow> int" where
  "InLeapYear y =
     (if y mod 4 \<noteq> 0 then 0 else if y mod 100 \<noteq> 0 then 1 else if y mod 400 \<noteq> 0 then 0 else 1)"

text \<open>The day of the year on which month \<open>m\<close> (0 to 11) starts.\<close>

definition monthStart :: "int \<Rightarrow> int \<Rightarrow> int" where
  "monthStart m leap =
     (if m = 0 then 0 else if m = 1 then 31 else if m = 2 then 59 + leap
      else if m = 3 then 90 + leap else if m = 4 then 120 + leap else if m = 5 then 151 + leap
      else if m = 6 then 181 + leap else if m = 7 then 212 + leap else if m = 8 then 243 + leap
      else if m = 9 then 273 + leap else if m = 10 then 304 + leap else 334 + leap)"

definition MakeDay :: "int \<Rightarrow> int \<Rightarrow> int \<Rightarrow> int" where
  "MakeDay year month date =
     (let ym = year + month div 12;
          mn = month mod 12
      in DayFromYear ym + monthStart mn (InLeapYear ym) + date - 1)"

definition MakeDate :: "int \<Rightarrow> int \<Rightarrow> int" where
  "MakeDate day time = day * msPerDay + time"

definition TimeClip :: "int \<Rightarrow> int option" where
  "TimeClip t = (if \<bar>t\<bar> \<le> 8640000000000000 then Some t else None)"

text \<open>\<^verbatim>\<open>new Date(year, month, date)\<close> on integers; years 0 to 99 stand for 1900 to 1999.\<close>

definition newDate :: "int \<Rightarrow> int \<Rightarrow> int \<Rightarrow> int option" where
  "newDate year month date =
     (let yr = (if 0 \<le> year \<and> year \<le> 99 then 1900 + year else year)
      in TimeClip (MakeDate (MakeDay yr month date) 0))"

text \<open>
  \<^verbatim>\<open>mmdd.split('-')\<close>, and \<^verbatim>\<open>Number\<close> on a string of decimal digits (the empty string
  is 0). The table holds nothing else; any other string is taken as NaN (\<open>None\<close>).
\<close>

fun split_on :: "char \<Rightarrow> string \<Rightarrow> string list" where
  "split_on c [] = [[]]"
| "split_on c (x # xs) =
     (if x = c then [] # split_on c xs
      else (case split_on c xs of [] \<Rightarrow> [[x]] | w # ws \<Rightarrow> (x # w) # ws))"

definition digit_of :: "char \<Rightarrow> int option" where
  "digit_of c = map_of (zip ''0123456789'' [0, 1, 2, 3, 4, 5, 6, 7, 8, 9]) c"

fun Number_from :: "int \<Rightarrow> string \<Rightarrow> int option" where
  "Number_from acc [] = Some acc"
| "Number_from acc (c # cs) =
     (case digit_of c of None \<Rightarrow> None | Some d \<Rightarrow> Number_from (10 * acc + d) cs)"

definition Number :: "string \<Rightarrow> int option" where
  "Number s = Number_from 0 s"

text \<open>
  \<^verbatim>\<open>const [m, d] = mmdd.split('-').map(Number); return new Date(year, m - 1, d);\<close>
  A missing or NaN component gives the invalid date.
\<close>

definition parseMMDD :: "string \<Rightarrow> int \<Rightarrow> int option" where
  "parseMMDD mmdd year =
     (case map Number (split_on CHR ''-'' mmdd) of
        Some m # Some d # rest \<Rightarrow> newDate year (m - 1) d
      | _ \<Rightarrow> None)"

text \<open>
  The clock reading \<^verbatim>\<open>new Date()\<close>, given by its local calendar fields (a valid date:
  month 0 to 11, day of the month from 1, milliseconds since local midnight), from
  which its time value follows.
\<close>

record clock =
  getFullYear :: int
  getMonth :: int
  getDate :: int
  timeInDay :: int

definition valueOf :: "clock \<Rightarrow> int" where
  "valueOf now = MakeDate (MakeDay (getFullYear now) (getMonth now) (getDate now)) (timeInDay now)"

text \<open>Comparisons and differences with a date that may be invalid: with NaN every comparison is false.\<close>

definition date_lt :: "int option \<Rightarrow> int option \<Rightarrow> bool" where
  "date_lt a b = (case (a, b) of (Some x, Some y) \<Rightarrow> x < y | _ \<Rightarrow> False)"

definition date_le :: "int option \<Rightarrow> int option \<Rightarrow> bool" where
  "date_le a b = (case (a, b) of (Some x, Some y) \<Rightarrow> x \<le> y | _ \<Rightarrow> False)"

definition date_diff :: "int option \<Rightarrow> int option \<Rightarrow> int option" where
  "date_diff a b = (case (a, b) of (Some x, Some y) \<Rightarrow> Some (x - y) | _ \<Rightarrow> None)"

text \<open>\<^verbatim>\<open>Math.ceil(ms / (1000 * 60 * 60 * 24))\<close>.\<close>

definition ceilDays :: "int option \<Rightarrow> int option" where
  "ceilDays ms = map_option (\<lambda>x. \<lceil>real_of_int x / (1000 * 60 * 60 * 24)\<rceil>) ms"

text \<open>
  The dates \<^verbatim>\<open>start\<close>, \<^verbatim>\<open>end\<close> and \<^verbatim>\<open>peak\<close> of a shower after the year-wrap
  handling, in that order.
\<close>

definition anchorDates :: "clock \<Rightarrow> shower \<Rightarrow> int option \<times> int option \<times> int option" where
  "anchorDates now shower =
     (let year = getFullYear now;
          start0 = parseMMDD (startMD shower) year;
          end0 = parseMMDD (endMD shower) year;
          peak0 = parseMMDD (peak shower) year
      in if date_lt end0 start0 then
           (if getMonth now < 6 then (parseMMDD (startMD shower) (year - 1), end0, peak0)
            else (start0, parseMMDD (endMD shower) (year + 1), parseMMDD (peak shower) (year + 1)))
         else (start0, end0, peak0))"

text \<open>
  What the callback of \<^verbatim>\<open>forEach\<close> does with one shower (its variables
  \<^verbatim>\<open>start\<close>, \<^verbatim>\<open>end\<close> and \<^verbatim>\<open>peak\<close> carry a prime here): it pushes it on
  \<^verbatim>\<open>active\<close> with \<^verbatim>\<open>isPeak\<close> and \<^verbatim>\<open>daysUntilPeak\<close>, or on \<^verbatim>\<open>upcoming\<close> with
  \<^verbatim>\<open>daysUntilStart\<close>, or leaves it out.
\<close>

datatype shower_class = Active bool "int option" | Upcoming int | Neither

definition classifyShower :: "clock \<Rightarrow> shower \<Rightarrow> shower_class" where
  "classifyShower now shower =
     (case anchorDates now shower of
        (start', end', peak') \<Rightarrow>
          let isPeak = (case date_diff (Some (valueOf now)) peak' of
                          None \<Rightarrow> False | Some d \<Rightarrow> \<bar>d\<bar> < 24 * 60 * 60 * 1000);
              isActive = (date_le start' (Some (valueOf now)) \<and> date_le (Some (valueOf now)) end');
              daysUntilStart = ceilDays (date_diff start' (Some (valueOf now)))
          in if isActive then Active isPeak (ceilDays (date_diff peak' (Some (valueOf now))))
             else (case daysUntilStart of
                     None \<Rightarrow> Neither
                   | Some n \<Rightarrow> if n > 0 \<and> n \<le> 60 then Upcoming n else Neither))"

definition pushShower ::
  "clock \<Rightarrow> (shower \<times> bool \<times> int option) list \<times> (shower \<times> int) list \<Rightarrow> shower \<Rightarrow>
   (shower \<times> bool \<times> int option) list \<times> (shower \<times> int) list" where
  "pushShower now acc shower =
     (case acc of
        (active, upcoming) \<Rightarrow>
          (case classifyShower now shower of
             Active isPeak daysUntilPeak \<Rightarrow> (active @ [(shower, isPeak, daysUntilPeak)], upcoming)
           | Upcoming daysUntilStart \<Rightarrow> (active, upcoming @ [(shower, daysUntilStart)])
           | Neither \<Rightarrow> (active, upcoming)))"

definition getActiveAndUpcomingShowers ::
  "clock \<Rightarrow> (shower \<times> bool \<times> int option) list \<times> (shower \<times> int) list" where
  "getActiveAndUpcomingShowers now = foldl (pushShower now) ([], []) METEOR_SHOWERS"

text \<open>The first row of the table, and two clock readings: noon of 5 January 2026 and of 29 December 2025.\<close>

definition Quadrantids :: shower where
  "Quadrantids = \<lparr>name = ''Quadrantids'', peak = ''01-03'', startMD = ''12-28'', endMD = ''01-12'',
                  rate = 120, parent = ''2003 EH1''\<rparr>"

definition jan5 :: clock where
  "jan5 = \<lparr>getFullYear = 2026, getMonth = 0, getDate = 5, timeInDay = 43200000\<rparr>"

definition dec29 :: clock where
  "dec29 = \<lparr>getFullYear = 2025, getMonth = 11, getDate = 29, timeInDay = 43200000\<rparr>"

subsection \<open>Sun position (src/js/app.js, getSunPosition)\<close>

text \<open>
  The module \<^verbatim>\<open>solar-calculator\<close> is outside the repository; its three functions that
  \<^verbatim>\<open>getSunPosition\<close> calls are taken as given.
\<close>

record solar_calculator =
  century :: "int \<Rightarrow> real"
  equationOfTime :: "real \<Rightarrow> real"
  declination :: "real \<Rightarrow> real"

text \<open>
  \<^verbatim>\<open>new Date(+dt).setUTCHours(0, 0, 0, 0)\<close>: the time value of the UTC midnight that
  starts the day of \<open>dt\<close>, for a time value \<open>dt\<close> that a \<^verbatim>\<open>Date\<close> can hold, as
  \<^verbatim>\<open>Date.now()\<close> is.
\<close>

definition setUTCHours0 :: "int \<Rightarrow> int" where
  "setUTCHours0 dt = MakeDate (dt div msPerDay) 0"

text \<open>\<^verbatim>\<open>getSunPosition(dt)\<close>; the literal \<^verbatim>\<open>864e5\<close> is 86400000.\<close>

definition getSunPosition :: "solar_calculator \<Rightarrow> int \<Rightarrow> real \<times> real" where
  "getSunPosition solar dt =
     (let day = setUTCHours0 dt;
          t = century solar dt;
          longitude = real_of_int (day - dt) / 86400000 * 360 - 180
      in (longitude - equationOfTime solar t / 4, declination solar t))"

section \<open>Properties\<close>

subsection \<open>Orbit trail\<close>

lemma addTrailPoint_trail:
  "trailPoints (addTrailPoint lat lng st) =
     (if length (trailPoints st) \<ge> TRAIL_MAX then tl (trailPoints st) @ [(lat, lng)]
      else trailPoints st @ [(lat, lng)])"
  by (cases "trailPoints st") (auto simp: addTrailPoint_def Let_def TRAIL_MAX_def)

lemma addTrailPoint_bounded:
  "length (trailPoints st) \<le> TRAIL_MAX \<Longrightarrow>
   length (trailPoints (addTrailPoint lat lng st)) \<le> TRAIL_MAX"
  by (auto simp: addTrailPoint_trail TRAIL_MAX_def)

lemma addTrailPoint_window:
  assumes "length (trailPoints st) \<le> TRAIL_MAX"
  shows "trailPoints (addTrailPoint lat lng st) =
         drop (length (trailPoints st @ [(lat, lng)]) - TRAIL_MAX) (trailPoints st @ [(lat, lng)])"
proof (cases "length (trailPoints st) = TRAIL_MAX")
  case True
  then obtain q qs where "trailPoints st = q # qs"
    by (cases "trailPoints st") (auto simp: TRAIL_MAX_def)
  with True show ?thesis
    by (simp add: addTrailPoint_trail TRAIL_MAX_def)
next
  case False
  with assms have "length (trailPoints st) < TRAIL_MAX" by simp
  then show ?thesis by (simp add: addTrailPoint_trail)
qed

lemma drop_window_append:
  fixes xs ps :: "'a list" and M :: nat
  shows "drop (length (drop (length xs - M) xs @ ps) - M) (drop (length xs - M) xs @ ps) =
         drop (length (xs @ ps) - M) (xs @ ps)"
proof -
  let ?d = "length xs - M"
  have e: "drop ?d xs @ ps = drop ?d (xs @ ps)" by simp
  have "drop (length (drop ?d xs @ ps) - M) (drop ?d (xs @ ps)) =
        drop (length (drop ?d xs @ ps) - M + ?d) (xs @ ps)"
    by (simp only: drop_drop)
  moreover have "length (drop ?d xs @ ps) - M + ?d = length (xs @ ps) - M"
    by (cases "M \<le> length xs") auto
  ultimately show ?thesis unfolding e by simp
qed

lemma addTrailPoints_window:
  "length (trailPoints st) \<le> TRAIL_MAX \<Longrightarrow>
   trailPoints (addTrailPoints st ps) =
     drop (length (trailPoints st @ ps) - TRAIL_MAX) (trailPoints st @ ps)
   \<and> length (trailPoints (addTrailPoints st ps)) \<le> TRAIL_MAX"
proof (induction ps arbitrary: st)
  case Nil
  then show ?case by simp
next
  case (Cons p ps)
  let ?st = "addTrailPoint (fst p) (snd p) st"
  let ?all = "trailPoints st @ [p]"
  have b: "length (trailPoints ?st) \<le> TRAIL_MAX"
    using Cons.prems by (rule addTrailPoint_bounded)
  have w: "trailPoints ?st = drop (length ?all - TRAIL_MAX) ?all"
    using addTrailPoint_window [OF Cons.prems, of "fst p" "snd p"] by simp
  from Cons.IH [OF b]
  have ih: "trailPoints (addTrailPoints ?st ps) =
              drop (length (trailPoints ?st @ ps) - TRAIL_MAX) (trailPoints ?st @ ps)"
    and ihb: "length (trailPoints (addTrailPoints ?st ps)) \<le> TRAIL_MAX"
    by simp_all
  have "drop (length (trailPoints ?st @ ps) - TRAIL_MAX) (trailPoints ?st @ ps) =
        drop (length (?all @ ps) - TRAIL_MAX) (?all @ ps)"
    unfolding w by (rule drop_window_append)
  with ih ihb show ?case by simp
qed

lemma segment_loop_rule:
  assumes "segment_loop tp i segments currentSeg = (S, c)"
    and "i \<le> length tp"
    and "P i segments currentSeg"
    and "\<And>k segs cur. k < length tp \<Longrightarrow> P k segs cur \<Longrightarrow>
           \<bar>snd (tp ! k) - snd (tp ! (k - 1))\<bar> > 180 \<Longrightarrow> P (Suc k) (segs @ [cur]) [tp ! k]"
    and "\<And>k segs cur. k < length tp \<Longrightarrow> P k segs cur \<Longrightarrow>
           \<not> \<bar>snd (tp ! k) - snd (tp ! (k - 1))\<bar> > 180 \<Longrightarrow> P (Suc k) segs (cur @ [tp ! k])"
  shows "P (length tp) S c"
  using assms
proof (induction tp i segments currentSeg rule: segment_loop.induct)
  case (1 tp i segments currentSeg)
  show ?case
  proof (cases "i < length tp")
    case False
    with "1.prems"(1,2,3) show ?thesis
      by (simp add: segment_loop.simps [of tp i])
  next
    case True
    show ?thesis
    proof (cases "\<bar>snd (tp ! i) - snd (tp ! (i - 1))\<bar> > 180")
      case jump: True
      have run: "segment_loop tp (i + 1) (segments @ [currentSeg]) ([] @ [tp ! i]) = (S, c)"
        using "1.prems"(1) True jump by (simp add: segment_loop.simps [of tp i])
      have "P (Suc i) (segments @ [currentSeg]) [tp ! i]"
        using "1.prems"(4) [OF True "1.prems"(3) jump] .
      then show ?thesis
        using "1.IH"(1) [OF True refl refl jump run] True "1.prems"(4,5) by simp
    next
      case nojump: False
      have run: "segment_loop tp (i + 1) segments (currentSeg @ [tp ! i]) = (S, c)"
        using "1.prems"(1) True nojump by (simp add: segment_loop.simps [of tp i])
      have "P (Suc i) segments (currentSeg @ [tp ! i])"
        using "1.prems"(5) [OF True "1.prems"(3) nojump] .
      then show ?thesis
        using "1.IH"(2) [OF True refl refl nojump run] True "1.prems"(4,5) by simp
    qed
  qed
qed

lemma no_jump_single: "no_jump [p]"
  by (simp add: no_jump_def)

lemma no_jump_snoc:
  assumes "no_jump cur" and "cur \<noteq> []" and "\<bar>snd p - snd (last cur)\<bar> \<le> 180"
  shows "no_jump (cur @ [p])"
  unfolding no_jump_def
proof (intro allI impI)
  fix j assume j: "Suc j < length (cur @ [p])"
  show "\<bar>snd ((cur @ [p]) ! Suc j) - snd ((cur @ [p]) ! j)\<bar> \<le> 180"
  proof (cases "Suc j < length cur")
    case True
    then show ?thesis using assms(1) by (simp add: no_jump_def nth_append)
  next
    case False
    with j have "Suc j = length cur" by simp
    then have "j = length cur - 1" by simp
    then show ?thesis using assms(2,3) by (simp add: nth_append last_conv_nth)
  qed
qed

lemma seg_inv_init: "tp \<noteq> [] \<Longrightarrow> seg_inv tp 1 [] [tp ! 0]"
  by (cases tp) (simp_all add: seg_inv_def no_jump_single)

lemma seg_inv_jump:
  assumes "k < length tp" and "seg_inv tp k segs cur"
    and "\<bar>snd (tp ! k) - snd (tp ! (k - 1))\<bar> > 180"
  shows "seg_inv tp (Suc k) (segs @ [cur]) [tp ! k]"
  using assms by (auto simp: seg_inv_def no_jump_single take_Suc_conv_app_nth)

lemma seg_inv_keep:
  assumes "k < length tp" and "seg_inv tp k segs cur"
    and "\<not> \<bar>snd (tp ! k) - snd (tp ! (k - 1))\<bar> > 180"
  shows "seg_inv tp (Suc k) segs (cur @ [tp ! k])"
proof -
  have "no_jump (cur @ [tp ! k])"
    using assms by (intro no_jump_snoc) (auto simp: seg_inv_def)
  moreover have "Suc k - 2 = k - 1" using assms(2) by (simp add: seg_inv_def)
  ultimately show ?thesis
    using assms by (auto simp: seg_inv_def take_Suc_conv_app_nth)
qed

lemma segment_inv:
  assumes "tp \<noteq> []" and "segment_loop tp 1 [] [tp ! 0] = (S, c)"
  shows "seg_inv tp (length tp) S c"
proof (rule segment_loop_rule [where P = "seg_inv tp", OF assms(2)])
  show "1 \<le> length tp" using assms(1) by (cases tp) simp_all
  show "seg_inv tp 1 [] [tp ! 0]" using assms(1) by (rule seg_inv_init)
qed (erule (2) seg_inv_jump, erule (2) seg_inv_keep)

text \<open>
  Claim C4. For a trail buffer of at least two points, no segment that the segmentation
  produces contains a longitude jump of more than 180 degrees: any two neighbouring points
  of one segment have longitudes that differ by at most 180 degrees in absolute value.
\<close>

theorem segment_no_internal_jump:
  assumes "2 \<le> length tp" and "seg \<in> set (segment tp)" and "Suc j < length seg"
  shows "\<bar>snd (seg ! Suc j) - snd (seg ! j)\<bar> \<le> 180"
proof -
  obtain S c where run: "segment_loop tp 1 [] [tp ! 0] = (S, c)"
    by (cases "segment_loop tp 1 [] [tp ! 0]")
  from assms(1) have "tp \<noteq> []" by auto
  then have "seg_inv tp (length tp) S c" using run by (rule segment_inv)
  moreover have "seg \<in> set S \<or> seg = c"
    using assms(2) run by (auto simp: segment_def)
  ultimately have "no_jump seg" by (auto simp: seg_inv_def)
  with assms(3) show ?thesis by (simp add: no_jump_def)
qed

lemma segment_crossing_trail:
  "segment crossing_trail = [[(10, 170), (10, 175)], [(10, -179), (10, -175)]]"
  by (simp add: segment_def crossing_trail_def segment_loop.simps)

theorem segment_no_internal_jump_witness:
  "2 \<le> length crossing_trail \<and> [(10, 170), (10, 175)] \<in> set (segment crossing_trail)
   \<and> Suc 0 < length [(10, 170) :: point, (10, 175)]
   \<and> \<bar>snd ([(10, 170) :: point, (10, 175)] ! Suc 0) - snd ([(10, 170) :: point, (10, 175)] ! 0)\<bar> \<le> 180"
proof -
  have a: "2 \<le> length crossing_trail" by (simp add: crossing_trail_def)
  have b: "[(10, 170), (10, 175)] \<in> set (segment crossing_trail)"
    by (simp add: segment_crossing_trail)
  have c: "Suc 0 < length [(10, 170) :: point, (10, 175)]" by simp
  from a b c segment_no_internal_jump [OF a b c] show ?thesis by blast
qed

text \<open>
  Claim C5. The trail [(10,170), (10,175), (10,-179), (10,-175)] is cut into the two
  segments [(10,170), (10,175)] and [(10,-179), (10,-175)]; that is also what
  \<^verbatim>\<open>pathsData\<close> receives once the four fixes have been added to an empty trail
  with the globe present.
\<close>

theorem segment_end_to_end:
  "segment [(10, 170), (10, 175), (10, -179), (10, -175)] =
     [[(10, 170), (10, 175)], [(10, -179), (10, -175)]]
   \<and> pathsData (addTrailPoints \<lparr>globe = True, trailPoints = [], pathsData = []\<rparr>
        [(10, 170), (10, 175), (10, -179), (10, -175)]) =
     [[(10, 170), (10, 175)], [(10, -179), (10, -175)]]"
  by (simp add: segment_def segment_loop.simps addTrailPoint_def TRAIL_MAX_def Let_def)

text \<open>
  Claim C9. For a trail buffer of at least two points the segments are an order-preserving
  partition of the buffer: their concatenation is the buffer, none of them is empty, and a
  crossing between the last two points leaves a last segment that holds the last point only.
\<close>

theorem segment_partition:
  assumes "2 \<le> length tp"
  shows "concat (segment tp) = tp \<and> [] \<notin> set (segment tp) \<and>
         (\<bar>snd (tp ! (length tp - 1)) - snd (tp ! (length tp - 2))\<bar> > 180 \<longrightarrow>
            last (segment tp) = [last tp])"
proof -
  obtain S c where run: "segment_loop tp 1 [] [tp ! 0] = (S, c)"
    by (cases "segment_loop tp 1 [] [tp ! 0]")
  from assms have ne: "tp \<noteq> []" by auto
  then have inv: "seg_inv tp (length tp) S c" using run by (rule segment_inv)
  have seg: "segment tp = S @ [c]" using run by (simp add: segment_def)
  have "concat (segment tp) = tp" using inv seg by (simp add: seg_inv_def)
  moreover have "[] \<notin> set (segment tp)" using inv seg by (auto simp: seg_inv_def)
  moreover have "last (segment tp) = [last tp]"
    if "\<bar>snd (tp ! (length tp - 1)) - snd (tp ! (length tp - 2))\<bar> > 180"
    using inv seg that assms ne by (simp add: seg_inv_def last_conv_nth)
  ultimately show ?thesis by blast
qed

theorem segment_partition_witness:
  "2 \<le> length edge_trail \<and> segment edge_trail = [[(10, 170), (10, 175)], [(10, -179)]]
   \<and> concat (segment edge_trail) = edge_trail \<and> [] \<notin> set (segment edge_trail)
   \<and> last (segment edge_trail) = [last edge_trail]"
proof -
  have a: "2 \<le> length edge_trail" by (simp add: edge_trail_def)
  have b: "segment edge_trail = [[(10, 170), (10, 175)], [(10, -179)]]"
    by (simp add: segment_def edge_trail_def segment_loop.simps)
  have c: "\<bar>snd (edge_trail ! (length edge_trail - 1)) - snd (edge_trail ! (length edge_trail - 2))\<bar> > 180"
    by (simp add: edge_trail_def)
  from a b c segment_partition [OF a] show ?thesis by blast
qed

text \<open>
  Claim C6. Starting from the empty trail, after any run of \<^verbatim>\<open>addTrailPoint\<close> calls
  the buffer holds at most 60 points, and it holds the most recent 60 of the points added,
  in the order they were added: once more than 60 have been added its length is exactly 60
  and the older points are gone.
\<close>

theorem trail_buffer_fifo:
  assumes "trailPoints st = []"
  shows "length (trailPoints (addTrailPoints st ps)) \<le> 60
         \<and> trailPoints (addTrailPoints st ps) = drop (length ps - 60) ps
         \<and> (length ps > 60 \<longrightarrow> length (trailPoints (addTrailPoints st ps)) = 60)"
proof -
  have "length (trailPoints st) \<le> TRAIL_MAX" using assms by simp
  from addTrailPoints_window [OF this, of ps] assms show ?thesis
    by (auto simp: TRAIL_MAX_def)
qed

theorem trail_buffer_fifo_witness:
  "trailPoints \<lparr>globe = False, trailPoints = [], pathsData = []\<rparr> = []
   \<and> trailPoints (addTrailPoints \<lparr>globe = False, trailPoints = [], pathsData = []\<rparr> fixes61)
       = map (\<lambda>k. (0, real k)) [1..<61]
   \<and> length (trailPoints (addTrailPoints \<lparr>globe = False, trailPoints = [], pathsData = []\<rparr> fixes61)) = 60"
  using trail_buffer_fifo [of "\<lparr>globe = False, trailPoints = [], pathsData = []\<rparr>" fixes61]
  by (simp add: fixes61_def drop_map)

subsection \<open>Pass prediction\<close>

lemma passes_loop_rule:
  assumes "I t v"
    and "\<And>t v v'. t < endMs \<Longrightarrow> I t v \<Longrightarrow> pass_step (look t) t v = Continue v' \<Longrightarrow> I (t + stepMs) v'"
    and "\<And>t v ps. t < endMs \<Longrightarrow> I t v \<Longrightarrow> pass_step (look t) t v = Break ps \<Longrightarrow> Q ps"
    and "\<And>t v e. t < endMs \<Longrightarrow> I t v \<Longrightarrow> pass_step (look t) t v \<noteq> Throw e"
    and "\<And>t v. \<not> t < endMs \<Longrightarrow> I t v \<Longrightarrow> Q (passes v)"
  shows "\<exists>ps. passes_loop look endMs t v = Inr ps \<and> Q ps"
  using assms
proof (induction look endMs t v rule: passes_loop.induct)
  case (1 look endMs t v)
  show ?case
  proof (cases "t < endMs")
    case False
    then show ?thesis
      using "1.prems"(1,5) by (simp add: passes_loop.simps [of look endMs t])
  next
    case True
    show ?thesis
    proof (cases "pass_step (look t) t v")
      case (Throw e)
      with "1.prems"(4) [OF True "1.prems"(1), of e] show ?thesis by blast
    next
      case (Break ps)
      with "1.prems"(3) [OF True "1.prems"(1)] True show ?thesis
        by (simp add: passes_loop.simps [of look endMs t])
    next
      case (Continue v')
      have "I (t + stepMs) v'"
        using "1.prems"(2) [OF True "1.prems"(1) Continue] .
      then have "\<exists>ps. passes_loop look endMs (t + stepMs) v' = Inr ps \<and> Q ps"
        using "1.IH" [OF True Continue] "1.prems"(2,3,4,5) by blast
      then show ?thesis
        using True Continue by (simp add: passes_loop.simps [of look endMs t])
    qed
  qed
qed

lemma on_grid_step: "on_grid now t \<Longrightarrow> on_grid now (t + stepMs)"
proof -
  assume a: "on_grid now t"
  then have "(t - now) mod stepMs = 0" by (simp add: on_grid_def)
  then have "(t - now + stepMs) mod stepMs = 0" by simp
  moreover have "t + stepMs - now = t - now + stepMs" by simp
  moreover have "0 < stepMs" by (simp add: stepMs_def)
  ultimately show ?thesis using a by (simp only: on_grid_def) linarith
qed

lemma on_grid_self: "on_grid now now"
  by (simp add: on_grid_def)

lemma pass_step_None: "pass_step None t v = Continue v"
  by (simp add: pass_step_def)

lemma pass_step_idle:
  "elDeg < MIN_ELEVATION_DEG \<Longrightarrow> \<not> inPass v \<Longrightarrow> pass_step (Some (elDeg, azDeg)) t v = Continue v"
  by (simp add: pass_step_def)

lemma pass_step_open:
  "elDeg \<ge> MIN_ELEVATION_DEG \<Longrightarrow> \<not> inPass v \<Longrightarrow>
   pass_step (Some (elDeg, azDeg)) t v =
     Continue (v\<lparr>inPass := True, maxElVar := elDeg,
                 currentPass := Some \<lparr>start = t, startAz = azDeg, maxEl = elDeg,
                                      maxElTime = t, endT = t, endAz = azDeg\<rparr>\<rparr>)"
  by (simp add: pass_step_def)

lemma pass_step_track:
  "elDeg \<ge> MIN_ELEVATION_DEG \<Longrightarrow> inPass v \<Longrightarrow> currentPass v = Some cp \<Longrightarrow>
   pass_step (Some (elDeg, azDeg)) t v =
     Continue (v\<lparr>maxElVar := (if elDeg > maxElVar v then elDeg else maxElVar v),
                 currentPass := Some ((if elDeg > maxElVar v then cp\<lparr>maxEl := elDeg, maxElTime := t\<rparr> else cp)
                                       \<lparr>endT := t, endAz := azDeg\<rparr>)\<rparr>)"
  by (simp add: pass_step_def)

lemma pass_step_close:
  "elDeg < MIN_ELEVATION_DEG \<Longrightarrow> inPass v \<Longrightarrow> currentPass v = Some cp \<Longrightarrow>
   pass_step (Some (elDeg, azDeg)) t v =
     (if length (passes v) \<ge> 4 then Break (passes v @ [cp])
      else Continue (v\<lparr>inPass := False, passes := passes v @ [cp], currentPass := None, maxElVar := 0\<rparr>))"
  by (simp add: pass_step_def)

lemma stepMs_pos: "0 < stepMs"
  by (simp add: stepMs_def)

lemma pass_inv_later:
  assumes "pass_inv look now endMs t v"
  shows "pass_inv look now endMs (t + stepMs) v"
proof -
  have "x < t \<Longrightarrow> x < t + stepMs" for x using stepMs_pos by simp
  with assms on_grid_step [of now t] show ?thesis
    unfolding pass_inv_def by blast
qed

lemma pass_inv_open:
  assumes inv: "pass_inv look now endMs t v" and el: "elDeg \<ge> MIN_ELEVATION_DEG"
    and out: "\<not> inPass v"
  shows "pass_inv look now endMs (t + stepMs)
           (v\<lparr>inPass := True, maxElVar := elDeg,
               currentPass := Some \<lparr>start = t, startAz = azDeg, maxEl = elDeg,
                                    maxElTime = t, endT = t, endAz = azDeg\<rparr>\<rparr>)"
proof -
  have lt: "x < t \<Longrightarrow> x < t + stepMs" for x using stepMs_pos by simp
  have g: "on_grid now t" "on_grid now (t + stepMs)"
    using inv on_grid_step [of now t] by (simp_all add: pass_inv_def)
  have old: "\<forall>p \<in> set (passes v). closed_pass look now endMs p \<and> endT p < t"
    and srt: "sorted_wrt (\<lambda>p q. endT p < start q) (passes v)"
    and len: "length (passes v) < 5"
    using inv by (simp_all add: pass_inv_def)
  have old': "\<forall>p \<in> set (passes v). closed_pass look now endMs p \<and> endT p < t + stepMs"
    using old lt by blast
  show ?thesis
    unfolding pass_inv_def using g old old' srt len el stepMs_pos
    by (simp add: wf_pass_def)
qed

lemma pass_inv_track:
  assumes inv: "pass_inv look now endMs t v" and el: "elDeg \<ge> MIN_ELEVATION_DEG"
    and cur: "currentPass v = Some cp"
  shows "pass_inv look now endMs (t + stepMs)
           (v\<lparr>maxElVar := (if elDeg > maxElVar v then elDeg else maxElVar v),
               currentPass := Some ((if elDeg > maxElVar v then cp\<lparr>maxEl := elDeg, maxElTime := t\<rparr> else cp)
                                     \<lparr>endT := t, endAz := azDeg\<rparr>)\<rparr>)"
proof -
  have lt: "x < t \<Longrightarrow> x < t + stepMs" for x using stepMs_pos by simp
  have g: "on_grid now t" "on_grid now (t + stepMs)"
    using inv on_grid_step [of now t] by (simp_all add: pass_inv_def)
  have old: "\<forall>p \<in> set (passes v). closed_pass look now endMs p \<and> endT p < t"
    and srt: "sorted_wrt (\<lambda>p q. endT p < start q) (passes v)"
    and len: "length (passes v) < 5" and inp: "inPass v"
    using inv cur by (simp_all add: pass_inv_def)
  have c: "wf_pass cp" "on_grid now (start cp)" "endT cp < t" "maxElVar v = maxEl cp"
    "\<forall>p \<in> set (passes v). endT p < start cp"
    using inv cur by (simp_all add: pass_inv_def)
  have wf: "start cp \<le> maxElTime cp" "maxElTime cp \<le> endT cp" "maxEl cp \<ge> MIN_ELEVATION_DEG"
    using c(1) by (simp_all add: wf_pass_def)
  have old': "\<forall>p \<in> set (passes v). closed_pass look now endMs p \<and> endT p < t + stepMs"
    using old lt by blast
  show ?thesis
    unfolding pass_inv_def using g old' srt len inp c(2-5) wf el stepMs_pos
    by (simp add: wf_pass_def)
qed

lemma pass_inv_close:
  assumes inv: "pass_inv look now endMs t v" and tlt: "t < endMs"
    and drop: "look t = Some (elDeg, azDeg)" "elDeg < MIN_ELEVATION_DEG"
    and cur: "currentPass v = Some cp"
  shows "passes_ok look now endMs (passes v @ [cp])"
    and "length (passes v) < 4 \<Longrightarrow>
         pass_inv look now endMs (t + stepMs)
           (v\<lparr>inPass := False, passes := passes v @ [cp], currentPass := None, maxElVar := 0\<rparr>)"
proof -
  have lt: "x < t \<Longrightarrow> x < t + stepMs" for x using stepMs_pos by simp
  have g: "on_grid now t" "on_grid now (t + stepMs)"
    using inv on_grid_step [of now t] by (simp_all add: pass_inv_def)
  have old: "\<forall>p \<in> set (passes v). closed_pass look now endMs p \<and> endT p < t"
    and srt: "sorted_wrt (\<lambda>p q. endT p < start q) (passes v)"
    and len: "length (passes v) < 5"
    using inv by (simp_all add: pass_inv_def)
  have c: "wf_pass cp" "on_grid now (start cp)" "on_grid now (endT cp)" "endT cp < t"
    "\<forall>p \<in> set (passes v). endT p < start cp"
    using inv cur by (simp_all add: pass_inv_def)
  have "dropped_at look t" using drop by (simp add: dropped_at_def)
  then have cl: "closed_pass look now endMs cp"
    unfolding closed_pass_def using c tlt g(1) by blast
  have srt': "sorted_wrt (\<lambda>p q. endT p < start q) (passes v @ [cp])"
    using srt c(5) by (simp add: sorted_wrt_append)
  show "passes_ok look now endMs (passes v @ [cp])"
    unfolding passes_ok_def using old cl srt' len by auto
  show "pass_inv look now endMs (t + stepMs)
           (v\<lparr>inPass := False, passes := passes v @ [cp], currentPass := None, maxElVar := 0\<rparr>)"
    if "length (passes v) < 4"
    unfolding pass_inv_def using g(2) old cl srt' that c(4) lt by auto
qed

lemma pass_inv_step:
  assumes "t < endMs" and inv: "pass_inv look now endMs t v"
  shows "case pass_step (look t) t v of
           Throw e \<Rightarrow> False
         | Break ps \<Rightarrow> passes_ok look now endMs ps
         | Continue v' \<Rightarrow> pass_inv look now endMs (t + stepMs) v'"
proof (cases "look t")
  case None
  then show ?thesis using pass_inv_later [OF inv] by (simp add: pass_step_None)
next
  case (Some s)
  obtain elDeg azDeg where s: "s = (elDeg, azDeg)" by (cases s)
  have io: "inPass v \<longleftrightarrow> currentPass v \<noteq> None" using inv by (simp add: pass_inv_def)
  show ?thesis
  proof (cases "elDeg \<ge> MIN_ELEVATION_DEG")
    case up: True
    show ?thesis
    proof (cases "inPass v")
      case False
      then show ?thesis
        using Some s up pass_inv_open [OF inv up False] by (simp add: pass_step_open)
    next
      case True
      then obtain cp where cp: "currentPass v = Some cp" using io by auto
      show ?thesis
        using Some s up True cp pass_inv_track [OF inv up cp]
        by (simp add: pass_step_track del: if_split)
    qed
  next
    case down: False
    then have lt: "elDeg < MIN_ELEVATION_DEG" by simp
    show ?thesis
    proof (cases "inPass v")
      case False
      then show ?thesis
        using Some s lt pass_inv_later [OF inv] by (simp add: pass_step_idle)
    next
      case True
      then obtain cp where cp: "currentPass v = Some cp" using io by auto
      have l: "look t = Some (elDeg, azDeg)" using Some s by simp
      show ?thesis
        using Some s lt True cp pass_inv_close [OF inv assms(1) l lt cp]
        by (auto simp: pass_step_close)
    qed
  qed
qed

lemma pass_inv_init:
  "pass_inv look now endMs now \<lparr>inPass = False, currentPass = None, maxElVar = 0, passes = []\<rparr>"
  by (simp add: pass_inv_def on_grid_self)

lemma passes_loop_ok:
  "\<exists>ps. passes_loop look endMs now \<lparr>inPass = False, currentPass = None, maxElVar = 0, passes = []\<rparr> = Inr ps
        \<and> passes_ok look now endMs ps"
proof (rule passes_loop_rule [where I = "pass_inv look now endMs"])
  show "pass_inv look now endMs now \<lparr>inPass = False, currentPass = None, maxElVar = 0, passes = []\<rparr>"
    by (rule pass_inv_init)
next
  fix t v v' assume "t < endMs" "pass_inv look now endMs t v" "pass_step (look t) t v = Continue v'"
  then show "pass_inv look now endMs (t + stepMs) v'"
    using pass_inv_step [of t endMs look now v] by simp
next
  fix t v ps assume "t < endMs" "pass_inv look now endMs t v" "pass_step (look t) t v = Break ps"
  then show "passes_ok look now endMs ps"
    using pass_inv_step [of t endMs look now v] by simp
next
  fix t v e assume "t < endMs" "pass_inv look now endMs t v"
  then show "pass_step (look t) t v \<noteq> Throw e"
    using pass_inv_step [of t endMs look now v] by (auto split: step_result.splits)
next
  fix t v assume "\<not> t < endMs" "pass_inv look now endMs t v"
  then show "passes_ok look now endMs (passes v)"
    by (auto simp: pass_inv_def passes_ok_def)
qed

lemma sampleTime_Suc: "sampleTime now (Suc k) = sampleTime now k + stepMs"
  by (simp add: sampleTime_def algebra_simps)

lemma sampleTime_0: "sampleTime now 0 = now"
  by (simp add: sampleTime_def)

lemma peak_at_first: "peak_at el now a a a"
  by (auto simp: peak_at_def)

lemma peak_at_higher:
  assumes "peak_at el now a (k - 1) j" and "a < k"
    and "el (sampleTime now k) > el (sampleTime now j)"
  shows "peak_at el now a k k"
  unfolding peak_at_def
proof (intro conjI allI impI)
  show "a \<le> k" using assms(2) by simp
  show "k \<le> k" by simp
  fix i
  { assume i: "a \<le> i \<and> i \<le> k"
    show "el (sampleTime now i) \<le> el (sampleTime now k)"
    proof (cases "i = k")
      case False
      with i have "i \<le> k - 1" by arith
      with i assms(1) have "el (sampleTime now i) \<le> el (sampleTime now j)"
        by (simp add: peak_at_def)
      with assms(3) show ?thesis by simp
    qed simp }
  { assume i: "a \<le> i \<and> i < k"
    then have "i \<le> k - 1" by arith
    with i assms(1) have "el (sampleTime now i) \<le> el (sampleTime now j)"
      by (simp add: peak_at_def)
    with assms(3) show "el (sampleTime now i) < el (sampleTime now k)" by simp }
qed

lemma peak_at_same:
  assumes "peak_at el now a (k - 1) j" and "a < k"
    and "\<not> el (sampleTime now k) > el (sampleTime now j)"
  shows "peak_at el now a k j"
  unfolding peak_at_def
proof (intro conjI allI impI)
  show "a \<le> j" using assms(1) by (simp add: peak_at_def)
  have "j \<le> k - 1" using assms(1) by (simp add: peak_at_def)
  then show "j \<le> k" by arith
  fix i
  { assume i: "a \<le> i \<and> i \<le> k"
    show "el (sampleTime now i) \<le> el (sampleTime now j)"
    proof (cases "i = k")
      case True
      with assms(3) show ?thesis by simp
    next
      case False
      with i have "i \<le> k - 1" by arith
      with i assms(1) show ?thesis by (simp add: peak_at_def)
    qed }
  { assume "a \<le> i \<and> i < j"
    with assms(1) show "el (sampleTime now i) < el (sampleTime now j)"
      by (simp add: peak_at_def) }
qed

lemma one_inv_step:
  assumes prof: "\<forall>k<N. (el (sampleTime now k) \<ge> MIN_ELEVATION_DEG) \<longleftrightarrow> (a \<le> k \<and> k \<le> b)"
    and ab: "a \<le> b" and k: "k < N" and inv: "one_inv el az now a b k v"
  shows "\<exists>v'. pass_step (Some (el (sampleTime now k), az (sampleTime now k))) (sampleTime now k) v = Continue v'
              \<and> one_inv el az now a b (Suc k) v'"
proof -
  let ?t = "sampleTime now k"
  have el: "(el ?t \<ge> MIN_ELEVATION_DEG) \<longleftrightarrow> (a \<le> k \<and> k \<le> b)" using prof k by simp
  consider (before) "k < a" | (first) "k = a" "k \<le> b" | (inside) "a < k" "k \<le> b"
    | (drop) "k = b + 1" | (after) "b + 1 < k"
    using ab by linarith
  then show ?thesis
  proof cases
    case before
    then have v: "v = initial_vars" using inv by (simp add: one_inv_def)
    have "el ?t < MIN_ELEVATION_DEG" using el before by auto
    then have "pass_step (Some (el ?t, az ?t)) ?t v = Continue v"
      using v by (simp add: pass_step_idle initial_vars_def)
    moreover have "one_inv el az now a b (Suc k) v"
      using before v ab by (simp add: one_inv_def)
    ultimately show ?thesis by blast
  next
    case first
    then have v: "v = initial_vars" using inv by (simp add: one_inv_def)
    have up: "el ?t \<ge> MIN_ELEVATION_DEG" using el first by auto
    have "pass_step (Some (el ?t, az ?t)) ?t v =
            Continue \<lparr>inPass = True, currentPass = Some (pass_over el az now a a a),
                      maxElVar = el ?t, passes = []\<rparr>"
      using up v first(1) by (simp add: pass_step_def initial_vars_def pass_over_def)
    moreover have "one_inv el az now a b (Suc k)
            \<lparr>inPass = True, currentPass = Some (pass_over el az now a a a),
             maxElVar = el ?t, passes = []\<rparr>"
      unfolding one_inv_def using first peak_at_first [of el now a] by auto
    ultimately show ?thesis by blast
  next
    case inside
    then obtain j where j: "peak_at el now a (k - 1) j"
      and v: "v = \<lparr>inPass = True, currentPass = Some (pass_over el az now a (k - 1) j),
                   maxElVar = el (sampleTime now j), passes = []\<rparr>"
      using inv by (auto simp: one_inv_def)
    have up: "el ?t \<ge> MIN_ELEVATION_DEG" using el inside by auto
    show ?thesis
    proof (cases "el ?t > el (sampleTime now j)")
      case True
      have "pass_step (Some (el ?t, az ?t)) ?t v =
              Continue \<lparr>inPass = True, currentPass = Some (pass_over el az now a k k),
                        maxElVar = el ?t, passes = []\<rparr>"
        using up v True by (simp add: pass_step_def pass_over_def)
      moreover have "one_inv el az now a b (Suc k)
              \<lparr>inPass = True, currentPass = Some (pass_over el az now a k k),
               maxElVar = el ?t, passes = []\<rparr>"
        unfolding one_inv_def using inside peak_at_higher [OF j inside(1) True] by auto
      ultimately show ?thesis by blast
    next
      case False
      have "pass_step (Some (el ?t, az ?t)) ?t v =
              Continue \<lparr>inPass = True, currentPass = Some (pass_over el az now a k j),
                        maxElVar = el (sampleTime now j), passes = []\<rparr>"
        using up v False by (simp add: pass_step_def pass_over_def)
      moreover have "one_inv el az now a b (Suc k)
              \<lparr>inPass = True, currentPass = Some (pass_over el az now a k j),
               maxElVar = el (sampleTime now j), passes = []\<rparr>"
        unfolding one_inv_def using inside peak_at_same [OF j inside(1) False] by auto
      ultimately show ?thesis by blast
    qed
  next
    case drop
    then obtain j where j: "peak_at el now a b j"
      and v: "v = \<lparr>inPass = True, currentPass = Some (pass_over el az now a b j),
                   maxElVar = el (sampleTime now j), passes = []\<rparr>"
      using inv ab by (auto simp: one_inv_def)
    have down: "el ?t < MIN_ELEVATION_DEG" using el drop by auto
    have "pass_step (Some (el ?t, az ?t)) ?t v =
            Continue \<lparr>inPass = False, currentPass = None, maxElVar = 0,
                      passes = [pass_over el az now a b j]\<rparr>"
      using down v by (simp add: pass_step_def)
    moreover have "one_inv el az now a b (Suc k)
            \<lparr>inPass = False, currentPass = None, maxElVar = 0,
             passes = [pass_over el az now a b j]\<rparr>"
      unfolding one_inv_def using drop j ab by auto
    ultimately show ?thesis by blast
  next
    case after
    then obtain j where j: "peak_at el now a b j"
      and v: "v = \<lparr>inPass = False, currentPass = None, maxElVar = 0,
                   passes = [pass_over el az now a b j]\<rparr>"
      using inv ab by (auto simp: one_inv_def)
    have down: "el ?t < MIN_ELEVATION_DEG" using el after by auto
    have "pass_step (Some (el ?t, az ?t)) ?t v = Continue v"
      using down v by (simp add: pass_step_idle)
    moreover have "one_inv el az now a b (Suc k) v"
      unfolding one_inv_def using after j v ab by auto
    ultimately show ?thesis by blast
  qed
qed

lemma sampleTime_less: "sampleTime now k < sampleTime now n \<longleftrightarrow> k < n"
  using stepMs_pos by (simp add: sampleTime_def)

lemma sampleTime_le: "sampleTime now k \<le> sampleTime now n \<longleftrightarrow> k \<le> n"
  using stepMs_pos by (simp add: sampleTime_def)

lemma passes_loop_single_interval:
  assumes prof: "\<forall>k<N. (el (sampleTime now k) \<ge> MIN_ELEVATION_DEG) \<longleftrightarrow> (a \<le> k \<and> k \<le> b)"
    and ab: "a \<le> b" and bN: "b < N"
  shows "\<exists>ps. passes_loop (\<lambda>t. Some (el t, az t)) (sampleTime now N) now initial_vars = Inr ps \<and>
              (if b + 1 < N then \<exists>j. peak_at el now a b j \<and> ps = [pass_over el az now a b j]
               else ps = [])"
proof (rule passes_loop_rule
    [where I = "\<lambda>t v. \<exists>k\<le>N. t = sampleTime now k \<and> one_inv el az now a b k v"])
  show "\<exists>k\<le>N. now = sampleTime now k \<and> one_inv el az now a b k initial_vars"
    by (rule exI [of _ 0]) (simp add: sampleTime_0 one_inv_def)
next
  fix t v v'
  assume t: "t < sampleTime now N"
    and I: "\<exists>k\<le>N. t = sampleTime now k \<and> one_inv el az now a b k v"
    and st: "pass_step (Some (el t, az t)) t v = Continue v'"
  from I obtain k where k: "t = sampleTime now k" "one_inv el az now a b k v" by blast
  from t k(1) have kN: "k < N" by (simp add: sampleTime_less)
  from one_inv_step [OF prof ab kN k(2)] st k(1)
  have "one_inv el az now a b (Suc k) v'" by auto
  with kN k(1) show "\<exists>k\<le>N. t + stepMs = sampleTime now k \<and> one_inv el az now a b k v'"
    by (intro exI [of _ "Suc k"]) (simp add: sampleTime_Suc)
next
  fix t v ps
  assume t: "t < sampleTime now N"
    and I: "\<exists>k\<le>N. t = sampleTime now k \<and> one_inv el az now a b k v"
    and st: "pass_step (Some (el t, az t)) t v = Break ps"
  from I obtain k where k: "t = sampleTime now k" "one_inv el az now a b k v" by blast
  from t k(1) have kN: "k < N" by (simp add: sampleTime_less)
  from one_inv_step [OF prof ab kN k(2)] st k(1)
  show "if b + 1 < N then \<exists>j. peak_at el now a b j \<and> ps = [pass_over el az now a b j] else ps = []"
    by auto
next
  fix t v e
  assume t: "t < sampleTime now N"
    and I: "\<exists>k\<le>N. t = sampleTime now k \<and> one_inv el az now a b k v"
  from I obtain k where k: "t = sampleTime now k" "one_inv el az now a b k v" by blast
  from t k(1) have kN: "k < N" by (simp add: sampleTime_less)
  from one_inv_step [OF prof ab kN k(2)] k(1)
  show "pass_step (Some (el t, az t)) t v \<noteq> Throw e" by auto
next
  fix t v
  assume t: "\<not> t < sampleTime now N"
    and I: "\<exists>k\<le>N. t = sampleTime now k \<and> one_inv el az now a b k v"
  from I obtain k where k: "k \<le> N" "t = sampleTime now k" "one_inv el az now a b k v" by blast
  from t k(1,2) have kN: "k = N" by (simp add: sampleTime_less)
  show "if b + 1 < N then \<exists>j. peak_at el now a b j \<and> passes v = [pass_over el az now a b j]
        else passes v = []"
  proof (cases "b + 1 < N")
    case True
    with k(3) kN show ?thesis by (auto simp: one_inv_def initial_vars_def)
  next
    case False
    with bN have "a < N \<and> N \<le> b + 1" using ab by simp
    with k(3) kN False show ?thesis by (auto simp: one_inv_def initial_vars_def)
  qed
qed

lemma window_end: "now + 48 * 60 * 60 * 1000 = sampleTime now 17280"
  by (simp add: sampleTime_def stepMs_def)

lemma grid_le_iff:
  fixes s r x y :: int
  assumes "0 < s" "0 \<le> r" "r < s"
  shows "x * s \<le> y * s + r \<longleftrightarrow> x \<le> y"
proof
  assume "x \<le> y"
  then have "x * s \<le> y * s" using assms(1) by (simp add: mult_right_mono)
  with assms(2) show "x * s \<le> y * s + r" by simp
next
  assume le: "x * s \<le> y * s + r"
  show "x \<le> y"
  proof (rule ccontr)
    assume "\<not> x \<le> y"
    then have "y + 1 \<le> x" by simp
    then have "(y + 1) * s \<le> x * s" using assms(1) by (simp add: mult_right_mono)
    then have "y * s + s \<le> x * s" by (simp add: algebra_simps)
    with le assms(3) show False by simp
  qed
qed

lemma interval_samples:
  assumes "now \<le> t0"
  obtains a b where "a \<le> b" and "b = a + 29 \<or> b = a + 30"
    and "\<And>k. (t0 \<le> sampleTime now k \<and> sampleTime now k \<le> t0 + 300000) \<longleftrightarrow> (a \<le> k \<and> k \<le> b)"
    and "\<And>n. t0 + 300000 < sampleTime now n \<longleftrightarrow> b < n"
proof -
  define q where "q = (t0 - now) div stepMs"
  define r where "r = (t0 - now) mod stepMs"
  have r: "0 \<le> r" "r < stepMs" using stepMs_pos by (simp_all add: r_def)
  have q: "0 \<le> q" using assms stepMs_pos by (simp add: q_def pos_imp_zdiv_nonneg_iff)
  have t0: "t0 = now + (q * stepMs + r)"
    unfolding q_def r_def by simp
  have w: "(300000 :: int) = 30 * stepMs" by (simp add: stepMs_def)
  define b where "b = nat (q + 30)"
  define a where "a = (if r = 0 then nat q else nat (q + 1))"
  have hi: "sampleTime now k \<le> t0 + 300000 \<longleftrightarrow> k \<le> b" for k
  proof -
    have "sampleTime now k \<le> t0 + 300000 \<longleftrightarrow> int k * stepMs \<le> (q + 30) * stepMs + r"
      unfolding t0 w sampleTime_def by (simp add: algebra_simps)
    also have "\<dots> \<longleftrightarrow> int k \<le> q + 30"
      using stepMs_pos r by (rule grid_le_iff)
    also have "\<dots> \<longleftrightarrow> k \<le> b" using q by (auto simp: b_def)
    finally show ?thesis .
  qed
  have lo: "t0 \<le> sampleTime now k \<longleftrightarrow> a \<le> k" for k
  proof (cases "r = 0")
    case True
    have "t0 \<le> sampleTime now k \<longleftrightarrow> q * stepMs \<le> int k * stepMs + 0"
      unfolding t0 sampleTime_def using True by simp
    also have "\<dots> \<longleftrightarrow> q \<le> int k"
      using stepMs_pos by (intro grid_le_iff) simp_all
    also have "\<dots> \<longleftrightarrow> a \<le> k" using q True by (auto simp: a_def)
    finally show ?thesis .
  next
    case False
    then have r1: "0 \<le> r - 1" "r - 1 < stepMs" using r by simp_all
    have "t0 \<le> sampleTime now k \<longleftrightarrow> \<not> (int k * stepMs \<le> q * stepMs + (r - 1))"
      unfolding t0 sampleTime_def by auto
    also have "\<dots> \<longleftrightarrow> \<not> (int k \<le> q)"
      using grid_le_iff [OF stepMs_pos r1, of "int k" q] by simp
    also have "\<dots> \<longleftrightarrow> a \<le> k" using q False by (auto simp: a_def)
    finally show ?thesis .
  qed
  have "a \<le> b" using q by (auto simp: a_def b_def)
  moreover have "b = a + 29 \<or> b = a + 30" using q by (auto simp: a_def b_def)
  moreover have "t0 + 300000 < sampleTime now n \<longleftrightarrow> b < n" for n
    using hi [of n] by auto
  ultimately show ?thesis using that lo hi by blast
qed

lemma computePasses_ok:
  "\<exists>ps. computePasses tleData lookAngles now observerLat observerLng observerAlt = Inr ps \<and>
        (case tleData of None \<Rightarrow> ps = []
         | Some satrec \<Rightarrow>
             passes_ok (lookAngles satrec (observerLat, observerLng, observerAlt)) now
               (now + 48 * 60 * 60 * 1000) ps)"
proof (cases tleData)
  case None
  then show ?thesis by (simp add: computePasses_def)
next
  case (Some satrec)
  then show ?thesis
    using passes_loop_ok [of "lookAngles satrec (observerLat, observerLng, observerAlt)"
        "now + 48 * 60 * 60 * 1000" now]
    by (simp add: computePasses_def)
qed

lemma computePasses_interval:
  assumes start: "now \<le> t0"
    and prof: "\<forall>k<17280. (el (sampleTime now k) \<ge> MIN_ELEVATION_DEG) \<longleftrightarrow>
                 (t0 \<le> sampleTime now k \<and> sampleTime now k \<le> t0 + 300000)"
    and inside: "t0 + 300000 < sampleTime now 17280"
  shows "\<exists>ps. computePasses (Some satrec) (\<lambda>satrec observer t. Some (el t, az t)) now lat lng alt = Inr ps \<and>
     (if t0 + 300000 < sampleTime now 17279
      then \<exists>a b j. (b = a + 29 \<or> b = a + 30) \<and> b < 17279 \<and> peak_at el now a b j \<and>
             (\<forall>k. (t0 \<le> sampleTime now k \<and> sampleTime now k \<le> t0 + 300000) \<longleftrightarrow> (a \<le> k \<and> k \<le> b)) \<and>
             ps = [pass_over el az now a b j]
      else ps = [])"
proof -
  obtain a b where ab: "a \<le> b" and len: "b = a + 29 \<or> b = a + 30"
    and mem: "\<And>k. (t0 \<le> sampleTime now k \<and> sampleTime now k \<le> t0 + 300000) \<longleftrightarrow> (a \<le> k \<and> k \<le> b)"
    and past: "\<And>n. t0 + 300000 < sampleTime now n \<longleftrightarrow> b < n"
    using interval_samples [OF start] by blast
  have bN: "b < 17280" using inside past by simp
  have prof': "\<forall>k<17280. (el (sampleTime now k) \<ge> MIN_ELEVATION_DEG) \<longleftrightarrow> (a \<le> k \<and> k \<le> b)"
    using prof mem by simp
  obtain ps where run: "passes_loop (\<lambda>t. Some (el t, az t)) (sampleTime now 17280) now initial_vars = Inr ps"
    and res: "if b + 1 < 17280 then \<exists>j. peak_at el now a b j \<and> ps = [pass_over el az now a b j]
              else ps = []"
    using passes_loop_single_interval [OF prof' ab bN, of az] by blast
  have cp: "computePasses (Some satrec) (\<lambda>satrec observer t. Some (el t, az t)) now lat lng alt = Inr ps"
    using run by (simp add: computePasses_def window_end [symmetric] initial_vars_def)
  have iff: "t0 + 300000 < sampleTime now 17279 \<longleftrightarrow> b + 1 < 17280"
    using past [of 17279] by auto
  show ?thesis
  proof (cases "b + 1 < 17280")
    case True
    then obtain j where j: "peak_at el now a b j" "ps = [pass_over el az now a b j]"
      using res by auto
    have "(b = a + 29 \<or> b = a + 30) \<and> b < 17279 \<and> peak_at el now a b j \<and>
          (\<forall>k. (t0 \<le> sampleTime now k \<and> sampleTime now k \<le> t0 + 300000) \<longleftrightarrow> (a \<le> k \<and> k \<le> b)) \<and>
          ps = [pass_over el az now a b j]"
      using len True j mem by simp
    then show ?thesis using cp iff True by (intro exI [of _ ps]) (simp, blast)
  next
    case False
    then have "ps = []" using res by simp
    then show ?thesis using cp iff False by simp
  qed
qed

lemma blink_passes:
  "computePasses (Some ()) blink_profile 0 0 0 0 =
     Inr [blink_pass 0, blink_pass 20000, blink_pass 40000, blink_pass 60000, blink_pass 80000]"
  by (simp add: computePasses_def passes_loop.simps pass_step_def blink_profile_def blink_pass_def
      stepMs_def MIN_ELEVATION_DEG_def Let_def)

lemma on_grid_before:
  assumes "on_grid now u" and "u < sampleTime now (Suc n)"
  shows "u \<le> sampleTime now n"
proof -
  define m where "m = (u - now) div stepMs"
  have "stepMs dvd (u - now)"
    using assms(1) by (simp add: on_grid_def mod_eq_0_iff_dvd)
  then have "(u - now) div stepMs * stepMs = u - now"
    by (rule dvd_div_mult_self)
  then have u: "u = now + m * stepMs"
    by (simp add: m_def)
  have "m * stepMs < (1 + int n) * stepMs"
    using assms(2) unfolding u sampleTime_def by simp
  then have "m < 1 + int n" using stepMs_pos by (simp add: mult_less_cancel_right)
  then have "m \<le> int n" by simp
  then have "m * stepMs \<le> int n * stepMs" using stepMs_pos by (simp add: mult_right_mono)
  then show ?thesis unfolding u sampleTime_def by simp
qed

lemma last_sample: "now + 48 * 60 * 60 * 1000 - stepMs = sampleTime now 17279"
  by (simp add: sampleTime_def stepMs_def)

lemma late_profile_one_interval:
  "(0::int) \<le> 172495000 \<and> (172495000::int) + 300000 < 0 + 48 * 60 * 60 * 1000 \<and>
   (\<forall>k<17280. (case late_profile () (0, 0, 0) (sampleTime 0 k) of
                  None \<Rightarrow> False
                | Some (elDeg, azDeg) \<Rightarrow>
                    (elDeg \<ge> MIN_ELEVATION_DEG) \<longleftrightarrow>
                    (172495000 \<le> sampleTime 0 k \<and> sampleTime 0 k \<le> 172495000 + 300000)))"
  by (simp add: late_profile_def MIN_ELEVATION_DEG_def)

text \<open>
  A pass that is still open when sampling stops is never pushed. The elevation of
  \<open>late_profile\<close> is 45 degrees during the 300 seconds from 172495000 ms to 172795000 ms
  and 0 otherwise; the window of a run started at time 0 ends at 172800000 ms, so the
  interval lies inside the window, but its samples run up to the last one at 172790000 ms
  and no later sample closes the pass: the result is empty.
\<close>

theorem single_interval_at_window_end_counterexample:
  "computePasses (Some ()) late_profile 0 0 0 0 = Inr []"
proof -
  let ?el = "\<lambda>t::int. if 172495000 \<le> t \<and> t \<le> 172795000 then 45 else (0::real)"
  have lp: "late_profile = (\<lambda>satrec observer t. Some (?el t, 0))"
    by (intro ext) (simp add: late_profile_def)
  have prof: "\<forall>k<17280. (?el (sampleTime 0 k) \<ge> MIN_ELEVATION_DEG) \<longleftrightarrow>
                (172495000 \<le> sampleTime 0 k \<and> sampleTime 0 k \<le> 172495000 + 300000)"
    by (simp add: MIN_ELEVATION_DEG_def)
  have inside: "(172495000::int) + 300000 < sampleTime 0 17280"
    by (simp add: sampleTime_def stepMs_def)
  have late: "\<not> (172495000::int) + 300000 < sampleTime 0 17279"
    by (simp add: sampleTime_def stepMs_def)
  from computePasses_interval [of 0 172495000 ?el, OF _ prof inside, of "()" "\<lambda>t. 0" 0 0 0] late
  show ?thesis unfolding lp by auto
qed

text \<open>
  Claim C1, amended. Let the propagation succeed at every sample, and let the sampled
  elevation be at least 10 degrees exactly at the samples inside one interval
  \<open>[t0, t0 + 300 s]\<close> that starts inside the 48-hour window and ends before the last
  sample of the window (taken 10 seconds before the window ends). Then
  \<^verbatim>\<open>computePasses\<close> returns exactly one pass; its duration differs from 300 seconds
  by at most one sampling step; and its \<^verbatim>\<open>maxEl\<close> is the greatest elevation over the
  samples inside the interval, reached at its \<^verbatim>\<open>maxElTime\<close>, which is one of them.
\<close>

theorem computePasses_single_interval:
  fixes el az :: "int \<Rightarrow> real"
  assumes "now \<le> t0" and "t0 + 300000 < now + 48 * 60 * 60 * 1000 - stepMs"
    and "\<forall>k<17280. (el (sampleTime now k) \<ge> MIN_ELEVATION_DEG) \<longleftrightarrow>
                 (t0 \<le> sampleTime now k \<and> sampleTime now k \<le> t0 + 300000)"
  shows "\<exists>p. computePasses (Some satrec) (\<lambda>satrec observer t. Some (el t, az t)) now lat lng alt = Inr [p] \<and>
           \<bar>(endT p - start p) - 300000\<bar> \<le> stepMs \<and>
           t0 \<le> maxElTime p \<and> maxElTime p \<le> t0 + 300000 \<and>
           (\<exists>j<17280. maxElTime p = sampleTime now j) \<and>
           maxEl p = el (maxElTime p) \<and>
           (\<forall>k<17280. t0 \<le> sampleTime now k \<and> sampleTime now k \<le> t0 + 300000 \<longrightarrow>
                        el (sampleTime now k) \<le> maxEl p)"
proof -
  have before: "t0 + 300000 < sampleTime now 17279"
    using assms(2) by (simp only: last_sample)
  then have inside: "t0 + 300000 < sampleTime now 17280"
    using sampleTime_less [of now 17279 17280] by simp
  from computePasses_interval [OF assms(1) assms(3) inside, of satrec az lat lng alt] before
  obtain a b j where len: "b = a + 29 \<or> b = a + 30" and b: "b < 17279"
    and pk: "peak_at el now a b j"
    and mem: "\<And>k. (t0 \<le> sampleTime now k \<and> sampleTime now k \<le> t0 + 300000) \<longleftrightarrow> (a \<le> k \<and> k \<le> b)"
    and res: "computePasses (Some satrec) (\<lambda>satrec observer t. Some (el t, az t)) now lat lng alt =
                Inr [pass_over el az now a b j]"
    by auto
  let ?p = "pass_over el az now a b j"
  have j: "a \<le> j" "j \<le> b" using pk by (simp_all add: peak_at_def)
  have dur: "endT ?p - start ?p = 290000 \<or> endT ?p - start ?p = 300000"
    using len by (auto simp: pass_over_def sampleTime_def stepMs_def)
  then have "\<bar>(endT ?p - start ?p) - 300000\<bar> \<le> stepMs" by (auto simp: stepMs_def)
  moreover have "t0 \<le> maxElTime ?p \<and> maxElTime ?p \<le> t0 + 300000"
    using mem [of j] j by (simp add: pass_over_def)
  moreover have "\<exists>j<17280. maxElTime ?p = sampleTime now j"
    using j b by (intro exI [of _ j]) (simp add: pass_over_def)
  moreover have "maxEl ?p = el (maxElTime ?p)" by (simp add: pass_over_def)
  moreover have "\<forall>k<17280. t0 \<le> sampleTime now k \<and> sampleTime now k \<le> t0 + 300000 \<longrightarrow>
                        el (sampleTime now k) \<le> maxEl ?p"
    using mem pk by (simp add: pass_over_def peak_at_def)
  ultimately show ?thesis using res by blast
qed

theorem computePasses_single_interval_witness:
  "(0::int) \<le> 1000000 \<and> (1000000::int) + 300000 < 0 + 48 * 60 * 60 * 1000 - stepMs \<and>
   (\<exists>p. computePasses (Some ()) mid_profile 0 0 0 0 = Inr [p] \<and>
         \<bar>(endT p - start p) - 300000\<bar> \<le> stepMs \<and> maxEl p = 45)"
proof -
  let ?el = "\<lambda>t::int. if 1000000 \<le> t \<and> t \<le> 1300000 then 45 else (0::real)"
  have mp: "mid_profile = (\<lambda>satrec observer t. Some (?el t, 0))"
    by (intro ext) (simp add: mid_profile_def)
  have h1: "(0::int) \<le> 1000000" by simp
  have h2: "(1000000::int) + 300000 < 0 + 48 * 60 * 60 * 1000 - stepMs" by (simp add: stepMs_def)
  have h3: "\<forall>k<17280. (?el (sampleTime 0 k) \<ge> MIN_ELEVATION_DEG) \<longleftrightarrow>
                (1000000 \<le> sampleTime 0 k \<and> sampleTime 0 k \<le> 1000000 + 300000)"
    by (simp add: MIN_ELEVATION_DEG_def)
  from computePasses_single_interval [of 0 1000000 ?el, OF h1 h2 h3, of "()" "\<lambda>t. 0" 0 0 0]
  obtain p where p: "computePasses (Some ()) mid_profile 0 0 0 0 = Inr [p]"
    "\<bar>(endT p - start p) - 300000\<bar> \<le> stepMs" "1000000 \<le> maxElTime p" "maxElTime p \<le> 1000000 + 300000"
    "maxEl p = ?el (maxElTime p)"
    unfolding mp by blast
  from p(3,4,5) have "maxEl p = 45" by simp
  with p(1,2) h1 h2 show ?thesis by blast
qed

text \<open>
  Claim C2. Whatever the element set, the observer and the outcome of the propagation,
  \<^verbatim>\<open>computePasses\<close> returns normally, with at most 5 passes, in time order: the start
  of a pass is not earlier than the start of any pass before it (indeed it is later than
  the end of any pass before it).
\<close>

theorem computePasses_at_most_five_in_order:
  "\<exists>ps. computePasses tleData lookAngles now observerLat observerLng observerAlt = Inr ps \<and>
        length ps \<le> 5 \<and> sorted_wrt (\<lambda>p q. start p \<le> start q) ps \<and>
        sorted_wrt (\<lambda>p q. endT p < start q) ps"
proof -
  obtain ps where ps: "computePasses tleData lookAngles now observerLat observerLng observerAlt = Inr ps"
    and ok: "case tleData of None \<Rightarrow> ps = []
         | Some satrec \<Rightarrow>
             passes_ok (lookAngles satrec (observerLat, observerLng, observerAlt)) now
               (now + 48 * 60 * 60 * 1000) ps"
    using computePasses_ok [of tleData lookAngles now observerLat observerLng observerAlt] by blast
  have "length ps \<le> 5 \<and> sorted_wrt (\<lambda>p q. start p \<le> start q) ps \<and>
        sorted_wrt (\<lambda>p q. endT p < start q) ps"
  proof (cases tleData)
    case None
    with ok show ?thesis by simp
  next
    case (Some satrec)
    let ?look = "lookAngles satrec (observerLat, observerLng, observerAlt)"
    from Some ok have pk: "passes_ok ?look now (now + 48 * 60 * 60 * 1000) ps" by simp
    then have wf: "\<forall>p \<in> set ps. start p \<le> endT p"
      by (auto simp: passes_ok_def closed_pass_def wf_pass_def)
    have srt: "sorted_wrt (\<lambda>p q. endT p < start q) ps" using pk by (simp add: passes_ok_def)
    have "sorted_wrt (\<lambda>p q. start p \<le> start q) ps"
    proof (rule sorted_wrt_mono_rel [OF _ srt])
      fix p q assume "p \<in> set ps" "q \<in> set ps" "endT p < start q"
      with wf show "start p \<le> start q" by fastforce
    qed
    with pk srt show ?thesis by (simp add: passes_ok_def)
  qed
  with ps show ?thesis by blast
qed

theorem computePasses_at_most_five_in_order_witness:
  "computePasses (Some ()) blink_profile 0 0 0 0 =
     Inr [blink_pass 0, blink_pass 20000, blink_pass 40000, blink_pass 60000, blink_pass 80000] \<and>
   length [blink_pass 0, blink_pass 20000, blink_pass 40000, blink_pass 60000, blink_pass 80000] \<le> 5 \<and>
   sorted_wrt (\<lambda>p q. start p \<le> start q)
     [blink_pass 0, blink_pass 20000, blink_pass 40000, blink_pass 60000, blink_pass 80000]"
  using computePasses_at_most_five_in_order [of "Some ()" blink_profile 0 0 0 0]
  by (auto simp: blink_passes)

text \<open>
  Claim C3. If the last sample of the window (10 seconds before its end) is at or above
  the minimum elevation, then the pass in progress there is not in the result: every
  returned pass ends before the last sample, and was closed by a sample below the minimum
  elevation that was taken after its end and before the last sample.
\<close>

theorem computePasses_open_pass_dropped:
  assumes "lookAngles satrec (observerLat, observerLng, observerAlt)
             (now + 48 * 60 * 60 * 1000 - stepMs) = Some (elDeg, azDeg)"
    and "elDeg \<ge> MIN_ELEVATION_DEG"
  shows "\<exists>ps. computePasses (Some satrec) lookAngles now observerLat observerLng observerAlt = Inr ps \<and>
           (\<forall>p \<in> set ps.
              endT p < now + 48 * 60 * 60 * 1000 - stepMs \<and>
              (\<exists>u. endT p < u \<and> u < now + 48 * 60 * 60 * 1000 - stepMs \<and>
                   dropped_at (lookAngles satrec (observerLat, observerLng, observerAlt)) u))"
proof -
  let ?look = "lookAngles satrec (observerLat, observerLng, observerAlt)"
  let ?last = "now + 48 * 60 * 60 * 1000 - stepMs"
  obtain ps where ps: "computePasses (Some satrec) lookAngles now observerLat observerLng observerAlt = Inr ps"
    and ok: "passes_ok ?look now (now + 48 * 60 * 60 * 1000) ps"
    using computePasses_ok [of "Some satrec" lookAngles now observerLat observerLng observerAlt] by auto
  have nd: "\<not> dropped_at ?look ?last" using assms by (simp add: dropped_at_def)
  have "endT p < ?last \<and> (\<exists>u. endT p < u \<and> u < ?last \<and> dropped_at ?look u)" if "p \<in> set ps" for p
  proof -
    from ok that obtain u where u: "endT p < u" "u < now + 48 * 60 * 60 * 1000" "on_grid now u"
      "dropped_at ?look u"
      by (auto simp: passes_ok_def closed_pass_def)
    from u(2) have "u < sampleTime now 17280" by (simp only: window_end)
    then have "u < sampleTime now (Suc 17279)" by simp
    with u(3) have "u \<le> sampleTime now 17279" by (rule on_grid_before)
    then have "u \<le> ?last" by (simp only: last_sample)
    moreover have "u \<noteq> ?last" using u(4) nd by auto
    ultimately have "u < ?last" by simp
    with u(1,4) show ?thesis by force
  qed
  with ps show ?thesis by blast
qed

theorem computePasses_open_pass_dropped_witness:
  "blink_profile () (0, 0, 0) (0 + 48 * 60 * 60 * 1000 - stepMs) = Some (45, 90) \<and>
   (45::real) \<ge> MIN_ELEVATION_DEG \<and>
   computePasses (Some ()) blink_profile 0 0 0 0 =
     Inr [blink_pass 0, blink_pass 20000, blink_pass 40000, blink_pass 60000, blink_pass 80000] \<and>
   blink_pass 80000 \<in> set [blink_pass 0, blink_pass 20000, blink_pass 40000, blink_pass 60000, blink_pass 80000] \<and>
   endT (blink_pass 80000) < 0 + 48 * 60 * 60 * 1000 - stepMs \<and>
   (\<exists>u. endT (blink_pass 80000) < u \<and> u < 0 + 48 * 60 * 60 * 1000 - stepMs \<and>
        dropped_at (blink_profile () (0, 0, 0)) u)"
proof -
  have h1: "blink_profile () (0, 0, 0) (0 + 48 * 60 * 60 * 1000 - stepMs) = Some (45, 90)"
    by (simp add: blink_profile_def stepMs_def)
  have h2: "(45::real) \<ge> MIN_ELEVATION_DEG" by (simp add: MIN_ELEVATION_DEG_def)
  from computePasses_open_pass_dropped [of blink_profile "()" 0 0 0 0 45 90, OF h1 h2] h1 h2
  show ?thesis by (simp add: blink_passes)
qed

text \<open>
  Claim C10. Every returned pass is well formed: its start is not later than its
  \<^verbatim>\<open>maxElTime\<close>, its \<^verbatim>\<open>maxElTime\<close> is not later than its end, and its
  \<^verbatim>\<open>maxEl\<close> is at least the threshold of 10 degrees.
\<close>

theorem computePasses_well_formed:
  "\<exists>ps. computePasses tleData lookAngles now observerLat observerLng observerAlt = Inr ps \<and>
        (\<forall>p \<in> set ps. start p \<le> maxElTime p \<and> maxElTime p \<le> endT p \<and> maxEl p \<ge> 10)"
proof -
  obtain ps where ps: "computePasses tleData lookAngles now observerLat observerLng observerAlt = Inr ps"
    and ok: "case tleData of None \<Rightarrow> ps = []
         | Some satrec \<Rightarrow>
             passes_ok (lookAngles satrec (observerLat, observerLng, observerAlt)) now
               (now + 48 * 60 * 60 * 1000) ps"
    using computePasses_ok [of tleData lookAngles now observerLat observerLng observerAlt] by blast
  have "\<forall>p \<in> set ps. start p \<le> maxElTime p \<and> maxElTime p \<le> endT p \<and> maxEl p \<ge> 10"
    using ok by (cases tleData)
      (auto simp: passes_ok_def closed_pass_def wf_pass_def MIN_ELEVATION_DEG_def)
  with ps show ?thesis by blast
qed

theorem computePasses_well_formed_witness:
  "computePasses (Some ()) blink_profile 0 0 0 0 =
     Inr [blink_pass 0, blink_pass 20000, blink_pass 40000, blink_pass 60000, blink_pass 80000] \<and>
   blink_pass 20000 \<in> set [blink_pass 0, blink_pass 20000, blink_pass 40000, blink_pass 60000, blink_pass 80000] \<and>
   start (blink_pass 20000) \<le> maxElTime (blink_pass 20000) \<and>
   maxElTime (blink_pass 20000) \<le> endT (blink_pass 20000) \<and> maxEl (blink_pass 20000) \<ge> 10"
  using computePasses_well_formed [of "Some ()" blink_profile 0 0 0 0]
  by (auto simp: blink_passes)

subsection \<open>Meteor shower calendar and sun position\<close>

lemma DayFromYear_next: "364 \<le> DayFromYear (y + 1) - DayFromYear y"
proof -
  have a: "(y - 1969) div 4 \<le> (y - 1968) div 4" by (rule zdiv_mono1) simp_all
  have "(y - 1900) div 100 \<le> (y - 1901 + 100) div 100" by (rule zdiv_mono1) simp_all
  then have b: "(y - 1900) div 100 \<le> (y - 1901) div 100 + 1" by simp
  have c: "(y - 1601) div 400 \<le> (y - 1600) div 400" by (rule zdiv_mono1) simp_all
  show ?thesis using a b c by (simp add: DayFromYear_def)
qed

lemma DayFromYear_bounds:
  assumes "1969 \<le> y" and "y \<le> 275001"
  shows "- 400 \<le> DayFromYear y" and "DayFromYear y \<le> 99900000"
proof -
  have a: "0 \<le> (y - 1969) div 4" "4 * ((y - 1969) div 4) \<le> y - 1969"
    using assms(1) by (simp_all add: pos_imp_zdiv_nonneg_iff)
  have b: "0 \<le> (y - 1901) div 100" "100 * ((y - 1901) div 100) \<le> y - 1901"
    using assms(1) by (simp_all add: pos_imp_zdiv_nonneg_iff)
  have c: "0 \<le> (y - 1601) div 400" "400 * ((y - 1601) div 400) \<le> y - 1601"
    using assms(1) by (simp_all add: pos_imp_zdiv_nonneg_iff)
  show "- 400 \<le> DayFromYear y" using a b c assms by (simp add: DayFromYear_def)
  show "DayFromYear y \<le> 99900000" using a b c assms by (simp add: DayFromYear_def)
qed

lemma InLeapYear_range: "0 \<le> InLeapYear y" "InLeapYear y \<le> 1"
  by (simp_all add: InLeapYear_def)

lemma newDate_Dec28:
  assumes "1969 \<le> y" and "y \<le> 275001"
  shows "newDate y 11 28 = Some ((DayFromYear y + 361 + InLeapYear y) * msPerDay)"
  using assms DayFromYear_bounds [OF assms] InLeapYear_range [of y]
  by (simp add: newDate_def MakeDay_def MakeDate_def TimeClip_def monthStart_def msPerDay_def)

lemma newDate_Jan:
  assumes "1969 \<le> y" and "y \<le> 275001" and "1 \<le> d" and "d \<le> 31"
  shows "newDate y 0 d = Some ((DayFromYear y + d - 1) * msPerDay)"
  using assms DayFromYear_bounds [OF assms(1,2)]
  by (simp add: newDate_def MakeDay_def MakeDate_def TimeClip_def monthStart_def msPerDay_def)

lemma parse_Quadrantids:
  "parseMMDD ''12-28'' y = newDate y 11 28"
  "parseMMDD ''01-12'' y = newDate y 0 12"
  "parseMMDD ''01-03'' y = newDate y 0 3"
  by (simp_all add: parseMMDD_def Number_def digit_of_def)

lemma anchor_Quadrantids:
  assumes "1970 \<le> getFullYear now" and "getFullYear now \<le> 275000"
  shows "anchorDates now Quadrantids =
           (if getMonth now < 6
            then (parseMMDD ''12-28'' (getFullYear now - 1), parseMMDD ''01-12'' (getFullYear now),
                  parseMMDD ''01-03'' (getFullYear now))
            else (parseMMDD ''12-28'' (getFullYear now), parseMMDD ''01-12'' (getFullYear now + 1),
                  parseMMDD ''01-03'' (getFullYear now + 1)))"
proof -
  let ?y = "getFullYear now"
  have y: "1969 \<le> ?y" "?y \<le> 275001" using assms by simp_all
  have "date_lt (parseMMDD ''01-12'' ?y) (parseMMDD ''12-28'' ?y)"
    using InLeapYear_range [of ?y]
    by (simp add: parse_Quadrantids newDate_Dec28 [OF y] newDate_Jan [OF y] date_lt_def msPerDay_def)
  then show ?thesis
    by (simp add: anchorDates_def Quadrantids_def Let_def)
qed

lemma pushShower_keeps:
  "x \<in> set (fst acc) \<Longrightarrow> x \<in> set (fst (pushShower now acc s))"
  by (cases acc) (auto simp: pushShower_def split: shower_class.splits)

lemma foldl_pushShower_keeps:
  "x \<in> set (fst acc) \<Longrightarrow> x \<in> set (fst (foldl (pushShower now) acc ss))"
proof (induction ss arbitrary: acc)
  case Nil
  then show ?case by simp
next
  case (Cons a ss)
  from Cons.prems have "x \<in> set (fst (pushShower now acc a))" by (rule pushShower_keeps)
  then show ?case using Cons.IH by simp
qed

lemma foldl_pushShower_adds:
  "s \<in> set ss \<Longrightarrow> classifyShower now s = Active isPeak d \<Longrightarrow>
   (s, isPeak, d) \<in> set (fst (foldl (pushShower now) acc ss))"
proof (induction ss arbitrary: acc)
  case Nil
  then show ?case by simp
next
  case (Cons a ss)
  show ?case
  proof (cases "s = a")
    case True
    have "(s, isPeak, d) \<in> set (fst (pushShower now acc a))"
      using True Cons.prems(2) by (cases acc) (simp add: pushShower_def)
    then show ?thesis by (simp add: foldl_pushShower_keeps)
  next
    case False
    with Cons show ?thesis by simp
  qed
qed

lemma Quadrantids_in_table: "Quadrantids \<in> set METEOR_SHOWERS"
  by (simp add: METEOR_SHOWERS_def Quadrantids_def)

lemma active_if_between:
  assumes "anchorDates now shower = (Some s, Some e, p)" and "s \<le> valueOf now" and "valueOf now \<le> e"
  shows "\<exists>isPeak d. classifyShower now shower = Active isPeak d"
  using assms by (simp add: classifyShower_def date_le_def Let_def)

lemma Quadrantids_active_january:
  assumes y: "1970 \<le> getFullYear now" "getFullYear now \<le> 275000"
    and t: "0 \<le> timeInDay now" "timeInDay now < msPerDay"
    and d: "getMonth now = 0" "getDate now = 5"
  shows "\<exists>isPeak d. classifyShower now Quadrantids = Active isPeak d"
proof -
  let ?y = "getFullYear now"
  have y0: "1969 \<le> ?y" "?y \<le> 275001" and y1: "1969 \<le> ?y - 1" "?y - 1 \<le> 275001"
    using y by simp_all
  have an: "anchorDates now Quadrantids =
      (Some ((DayFromYear (?y - 1) + 361 + InLeapYear (?y - 1)) * msPerDay),
       Some ((DayFromYear ?y + 12 - 1) * msPerDay), newDate ?y 0 3)"
    using d by (simp add: anchor_Quadrantids [OF y] parse_Quadrantids newDate_Dec28 [OF y1]
        newDate_Jan [OF y0])
  have v: "valueOf now = (DayFromYear ?y + 4) * msPerDay + timeInDay now"
    using d by (simp add: valueOf_def MakeDay_def MakeDate_def monthStart_def)
  have step: "364 \<le> DayFromYear ?y - DayFromYear (?y - 1)"
    using DayFromYear_next [of "?y - 1"] by simp
  have lo: "(DayFromYear (?y - 1) + 361 + InLeapYear (?y - 1)) * msPerDay \<le> valueOf now"
    using step t InLeapYear_range(2) [of "?y - 1"] unfolding v msPerDay_def by simp
  have hi: "valueOf now \<le> (DayFromYear ?y + 12 - 1) * msPerDay"
    using t unfolding v msPerDay_def by simp
  from active_if_between [OF an lo hi] show ?thesis .
qed

lemma Quadrantids_active_december:
  assumes y: "1970 \<le> getFullYear now" "getFullYear now \<le> 275000"
    and t: "0 \<le> timeInDay now" "timeInDay now < msPerDay"
    and d: "getMonth now = 11" "getDate now = 29"
  shows "\<exists>isPeak d. classifyShower now Quadrantids = Active isPeak d"
proof -
  let ?y = "getFullYear now"
  have y0: "1969 \<le> ?y" "?y \<le> 275001" and y1: "1969 \<le> ?y + 1" "?y + 1 \<le> 275001"
    using y by simp_all
  have an: "anchorDates now Quadrantids =
      (Some ((DayFromYear ?y + 361 + InLeapYear ?y) * msPerDay),
       Some ((DayFromYear (?y + 1) + 12 - 1) * msPerDay), newDate (?y + 1) 0 3)"
    using d by (simp add: anchor_Quadrantids [OF y] parse_Quadrantids newDate_Dec28 [OF y0]
        newDate_Jan [OF y1])
  have v: "valueOf now = (DayFromYear ?y + 362 + InLeapYear ?y) * msPerDay + timeInDay now"
    using d by (simp add: valueOf_def MakeDay_def MakeDate_def monthStart_def Let_def)
  have step: "364 \<le> DayFromYear (?y + 1) - DayFromYear ?y"
    by (rule DayFromYear_next)
  have lo: "(DayFromYear ?y + 361 + InLeapYear ?y) * msPerDay \<le> valueOf now"
    using t unfolding v msPerDay_def by simp
  have hi: "valueOf now \<le> (DayFromYear (?y + 1) + 12 - 1) * msPerDay"
    using step t InLeapYear_range(2) [of ?y] unfolding v msPerDay_def by simp
  from active_if_between [OF an lo hi] show ?thesis .
qed

lemma showers_jan5:
  "getActiveAndUpcomingShowers jan5 = ([(Quadrantids, False, Some (- 2))], [])"
  by code_simp

lemma showers_dec29:
  "getActiveAndUpcomingShowers dec29 = ([(Quadrantids, False, Some 5)], [])"
  by code_simp

text \<open>
  Claim C7. For a clock reading in the years 1970 to 275000, the year-wrap handling
  anchors the Quadrantids (start 12-28, end 01-12, peak 01-03) as follows: in the first half
  of the year (months January to June) the start is taken in the previous year, otherwise
  the end and the peak are taken in the next year. At every instant of January 5, and at
  every instant of December 29, the Quadrantids are pushed on the list of active showers.
\<close>

theorem Quadrantids_year_wrap:
  assumes "1970 \<le> getFullYear now" and "getFullYear now \<le> 275000"
    and "0 \<le> timeInDay now" and "timeInDay now < msPerDay"
  shows "anchorDates now Quadrantids =
           (if getMonth now < 6
            then (parseMMDD ''12-28'' (getFullYear now - 1), parseMMDD ''01-12'' (getFullYear now),
                  parseMMDD ''01-03'' (getFullYear now))
            else (parseMMDD ''12-28'' (getFullYear now), parseMMDD ''01-12'' (getFullYear now + 1),
                  parseMMDD ''01-03'' (getFullYear now + 1)))
         \<and> ((getMonth now = 0 \<and> getDate now = 5) \<or> (getMonth now = 11 \<and> getDate now = 29) \<longrightarrow>
              (\<exists>isPeak daysUntilPeak.
                 (Quadrantids, isPeak, daysUntilPeak) \<in> set (fst (getActiveAndUpcomingShowers now))))"
proof -
  have "\<exists>isPeak d. classifyShower now Quadrantids = Active isPeak d"
    if "(getMonth now = 0 \<and> getDate now = 5) \<or> (getMonth now = 11 \<and> getDate now = 29)"
    using that Quadrantids_active_january [OF assms] Quadrantids_active_december [OF assms]
    by blast
  then have "\<exists>isPeak d. (Quadrantids, isPeak, d) \<in> set (fst (getActiveAndUpcomingShowers now))"
    if "(getMonth now = 0 \<and> getDate now = 5) \<or> (getMonth now = 11 \<and> getDate now = 29)"
    using that foldl_pushShower_adds [OF Quadrantids_in_table, of now]
    unfolding getActiveAndUpcomingShowers_def by blast
  then show ?thesis using anchor_Quadrantids [OF assms(1,2)] by blast
qed

theorem Quadrantids_year_wrap_witness:
  "1970 \<le> getFullYear jan5 \<and> getFullYear jan5 \<le> 275000 \<and>
   0 \<le> timeInDay jan5 \<and> timeInDay jan5 < msPerDay \<and> getMonth jan5 = 0 \<and> getDate jan5 = 5 \<and>
   (\<exists>isPeak daysUntilPeak.
      (Quadrantids, isPeak, daysUntilPeak) \<in> set (fst (getActiveAndUpcomingShowers jan5))) \<and>
   getActiveAndUpcomingShowers jan5 = ([(Quadrantids, False, Some (- 2))], []) \<and>
   1970 \<le> getFullYear dec29 \<and> getFullYear dec29 \<le> 275000 \<and>
   0 \<le> timeInDay dec29 \<and> timeInDay dec29 < msPerDay \<and> getMonth dec29 = 11 \<and> getDate dec29 = 29 \<and>
   (\<exists>isPeak daysUntilPeak.
      (Quadrantids, isPeak, daysUntilPeak) \<in> set (fst (getActiveAndUpcomingShowers dec29))) \<and>
   getActiveAndUpcomingShowers dec29 = ([(Quadrantids, False, Some 5)], [])"
proof -
  have j: "1970 \<le> getFullYear jan5" "getFullYear jan5 \<le> 275000"
    "0 \<le> timeInDay jan5" "timeInDay jan5 < msPerDay" "getMonth jan5 = 0" "getDate jan5 = 5"
    by (simp_all add: jan5_def msPerDay_def)
  have d: "1970 \<le> getFullYear dec29" "getFullYear dec29 \<le> 275000"
    "0 \<le> timeInDay dec29" "timeInDay dec29 < msPerDay" "getMonth dec29 = 11" "getDate dec29 = 29"
    by (simp_all add: dec29_def msPerDay_def)
  from Quadrantids_year_wrap [OF j(1-4)] j(5,6)
  have a: "\<exists>isPeak daysUntilPeak.
      (Quadrantids, isPeak, daysUntilPeak) \<in> set (fst (getActiveAndUpcomingShowers jan5))"
    by blast
  from Quadrantids_year_wrap [OF d(1-4)] d(5,6)
  have b: "\<exists>isPeak daysUntilPeak.
      (Quadrantids, isPeak, daysUntilPeak) \<in> set (fst (getActiveAndUpcomingShowers dec29))"
    by blast
  from j d a b showers_jan5 showers_dec29 show ?thesis by blast
qed

text \<open>
  Claim C8. For every timestamp, \<^verbatim>\<open>getSunPosition\<close> returns the longitude
  \<open>(dayStartUTC - timestamp) / 86400000 * 360 - 180 - equationOfTime(T) / 4\<close> and the
  declination \<open>declination(T)\<close>, where \<open>T\<close> is the Julian century of the timestamp and
  \<open>dayStartUTC\<close> is the timestamp truncated to UTC midnight: the multiple of 86400000 ms
  that is at most the timestamp and less than one day before it.
\<close>

theorem getSunPosition_formula:
  "\<exists>dayStartUTC.
     dayStartUTC mod 86400000 = 0 \<and> dayStartUTC \<le> timestamp \<and> timestamp < dayStartUTC + 86400000 \<and>
     getSunPosition solar timestamp =
       (real_of_int (dayStartUTC - timestamp) / 86400000 * 360 - 180
          - equationOfTime solar (century solar timestamp) / 4,
        declination solar (century solar timestamp))"
proof (intro exI [of _ "setUTCHours0 timestamp"] conjI)
  have e: "setUTCHours0 timestamp = timestamp - timestamp mod 86400000"
    by (simp add: setUTCHours0_def MakeDate_def msPerDay_def minus_mod_eq_div_mult)
  show "setUTCHours0 timestamp mod 86400000 = 0"
    by (simp add: setUTCHours0_def MakeDate_def msPerDay_def)
  show "setUTCHours0 timestamp \<le> timestamp" unfolding e by simp
  show "timestamp < setUTCHours0 timestamp + 86400000" unfolding e
    using pos_mod_bound [of 86400000 timestamp] by simp
  show "getSunPosition solar timestamp =
       (real_of_int (setUTCHours0 timestamp - timestamp) / 86400000 * 360 - 180
          - equationOfTime solar (century solar timestamp) / 4,
        declination solar (century solar timestamp))"
    by (simp add: getSunPosition_def Let_def)
qed

end
